theory Spec2Isabelle
  imports Main
begin

section \<open>CityLink: reachability over a dense adjacency matrix\<close>

text \<open>
  The program keeps two globals, \<^verbatim>\<open>int N\<close> (the number of cities) and
  \<^verbatim>\<open>int **cityMatrix\<close> (N rows of N ints, read with \<^verbatim>\<open>fscanf("%d")\<close>).
  \<open>N\<close> is a natural number here: with a negative \<^verbatim>\<open>N\<close> no loop of the source
  runs, as with 0.  A matrix is modelled as a function from row and column index to the stored int; every
  loop of the source runs its indices over \<open>0..<N\<close>, so only those cells are ever
  read or written.  The cells are only copied and tested against 0 and 1: no arithmetic
  is done on them, so mathematical integers stand for C's \<^verbatim>\<open>int\<close> without loss.
  C truth is \<open>\<noteq> 0\<close>; the initial print pass of the closure tests \<open>= 1\<close>, as the
  source does.

  A \<^verbatim>\<open>for (i = 0; i < N; i++)\<close> loop whose body changes neither \<open>i\<close> nor
  \<open>N\<close> is a \<open>fold\<close> over \<open>[0..<N]\<close>; the \<^verbatim>\<open>while (repeat)\<close> loop and the
  recursion of \<^verbatim>\<open>findPath\<close> are recursive functions with termination proofs.
\<close>

subsection \<open>Matrices\<close>

type_synonym matrix = "nat \<Rightarrow> nat \<Rightarrow> int"

text \<open>\<^verbatim>\<open>createMatrix\<close>: every row comes from \<^verbatim>\<open>calloc\<close>, so every cell is 0.\<close>

definition createMatrix :: matrix where
  "createMatrix = (\<lambda>i j. 0)"

text \<open>The assignment \<^verbatim>\<open>m[i][j] = x\<close>.\<close>

definition set_cell :: "matrix \<Rightarrow> nat \<Rightarrow> nat \<Rightarrow> int \<Rightarrow> matrix" where
  "set_cell m i j x = (\<lambda>a b. if a = i \<and> b = j then x else m a b)"

text \<open>
  The two nested copy loops \<^verbatim>\<open>dst[i][j] = src[i][j]\<close> (lines 336-340 and 362-366).
\<close>

definition copyMatrix :: "nat \<Rightarrow> matrix \<Rightarrow> matrix \<Rightarrow> matrix" where
  "copyMatrix N src dst =
     fold (\<lambda>i. fold (\<lambda>j m. set_cell m i j (src i j)) [0..<N]) [0..<N] dst"

text \<open>A matrix written row by row, for concrete inputs.\<close>

definition matrix_of :: "int list list \<Rightarrow> matrix" where
  "matrix_of rows = (\<lambda>i j. rows ! i ! j)"

subsection \<open>The closure engine: \<^verbatim>\<open>calculateTransitiveClosure\<close>\<close>

text \<open>
  The working state of the function: the closure matrix, the snapshot \<^verbatim>\<open>previous\<close>,
  the flag \<^verbatim>\<open>repeat\<close> and the lines \<^verbatim>\<open>"u -> w"\<close> printed so far.  The flag
  \<^verbatim>\<open>printToFile\<close> only selects the sink (the file or standard output); the
  sequence of lines is the same for both, so one list stands for either sink.
\<close>

record closure_state =
  transitiveClosure :: matrix
  previous :: matrix
  repeat :: int
  emitted :: "(nat \<times> nat) list"

text \<open>The initial print pass (lines 344-353).\<close>

definition emit_initial :: "nat \<Rightarrow> matrix \<Rightarrow> (nat \<times> nat) list \<Rightarrow> (nat \<times> nat) list" where
  "emit_initial N tc out =
     fold (\<lambda>u. fold (\<lambda>w out. if tc u w = 1 then out @ [(u, w)] else out) [0..<N]) [0..<N] out"

text \<open>The body of the innermost loop (lines 372-382).\<close>

definition closure_step :: "matrix \<Rightarrow> nat \<Rightarrow> nat \<Rightarrow> nat \<Rightarrow> closure_state \<Rightarrow> closure_state" where
  "closure_step cityMatrix u v w st =
     (if cityMatrix v w \<noteq> 0 \<and> transitiveClosure st u w = 0 \<and> u \<noteq> w
      then st\<lparr>transitiveClosure := set_cell (transitiveClosure st) u w 1,
              repeat := 1,
              emitted := emitted st @ [(u, w)]\<rparr>
      else st)"

text \<open>The loops over \<open>u\<close>, \<open>v\<close> and \<open>w\<close> (lines 368-386).\<close>

definition closure_scan :: "nat \<Rightarrow> matrix \<Rightarrow> closure_state \<Rightarrow> closure_state" where
  "closure_scan N cityMatrix st =
     fold (\<lambda>u. fold (\<lambda>v st. if previous st u v \<noteq> 0
                               then fold (closure_step cityMatrix u v) [0..<N] st
                               else st) [0..<N]) [0..<N] st"

text \<open>One run of the body of the \<^verbatim>\<open>while\<close> loop (lines 359-386).\<close>

definition closure_pass :: "nat \<Rightarrow> matrix \<Rightarrow> closure_state \<Rightarrow> closure_state" where
  "closure_pass N cityMatrix st =
     (let st1 = st\<lparr>repeat := 0\<rparr>;
          st2 = st1\<lparr>previous := copyMatrix N (transitiveClosure st1) (previous st1)\<rparr>
      in closure_scan N cityMatrix st2)"

subsection \<open>What one pass discovers, stated without the loops\<close>

text \<open>
  The definitions of this subsection are not translated from the source: they say in
  terms of lists what the specification says a pass discovers, and the loops of the
  source are proved to compute it.

  The index triples \<open>(u, v, w)\<close> in ascending order, \<open>u\<close> first.
\<close>

definition triples :: "nat \<Rightarrow> (nat \<times> nat \<times> nat) list" where
  "triples N = concat (map (\<lambda>u. concat (map (\<lambda>v. map (\<lambda>w. (u, v, w)) [0..<N]) [0..<N])) [0..<N])"

text \<open>Keep the first occurrence of every element, in order.\<close>

definition first_occurrences :: "'a list \<Rightarrow> 'a list" where
  "first_occurrences xs = fold (\<lambda>x acc. if x \<in> set acc then acc else acc @ [x]) xs []"

text \<open>
  The pairs a pass adds to a closure matrix \<open>C\<close>: the pairs \<open>(u, w)\<close>, \<open>u \<noteq> w\<close>,
  not yet in \<open>C\<close>, for which some \<open>v\<close> has \<open>C u v\<close> and an edge from \<open>v\<close> to \<open>w\<close>,
  each once, in the order of the first triple \<open>(u, v, w)\<close> that yields it.
\<close>

definition discovered :: "nat \<Rightarrow> matrix \<Rightarrow> matrix \<Rightarrow> (nat \<times> nat) list" where
  "discovered N A C =
     first_occurrences
       (map (\<lambda>(u, v, w). (u, w))
          (filter (\<lambda>(u, v, w). C u v \<noteq> 0 \<and> A v w \<noteq> 0 \<and> C u w = 0 \<and> u \<noteq> w) (triples N)))"

text \<open>The matrix \<open>C\<close> with the cells of the listed pairs set to 1.\<close>

definition overlay :: "matrix \<Rightarrow> (nat \<times> nat) list \<Rightarrow> matrix" where
  "overlay C ps = (\<lambda>u w. if (u, w) \<in> set ps then 1 else C u w)"

lemma set_cell_apply: "set_cell m i j x a b = (if a = i \<and> b = j then x else m a b)"
  by (simp add: set_cell_def)

lemma copy_row: "fold (\<lambda>j m. set_cell m i j (src i j)) js m a b =
   (if a = i \<and> b \<in> set js then src i b else m a b)"
  by (induction js arbitrary: m) (auto simp: set_cell_apply)

lemma copy_rows: "fold (\<lambda>i. fold (\<lambda>j m. set_cell m i j (src i j)) js) is m a b =
   (if a \<in> set is \<and> b \<in> set js then src a b else m a b)"
  by (induction "is" arbitrary: m) (auto simp: copy_row)

lemma copyMatrix_apply: "copyMatrix N src dst a b = (if a < N \<and> b < N then src a b else dst a b)"
  by (simp add: copyMatrix_def copy_rows)

subsection \<open>The three nested loops as one fold over the triples\<close>

definition scan_step :: "matrix \<Rightarrow> nat \<times> nat \<times> nat \<Rightarrow> closure_state \<Rightarrow> closure_state" where
  "scan_step A t st = (case t of (u, v, w) \<Rightarrow>
      if previous st u v \<noteq> 0 then closure_step A u v w st else st)"

lemma previous_closure_step: "previous (closure_step A u v w st) = previous st"
  by (simp add: closure_step_def)

lemma guard_into_fold:
  "fold (\<lambda>w. scan_step A (u, v, w)) ws st =
   (if previous st u v \<noteq> 0 then fold (closure_step A u v) ws st else st)"
proof (induction ws arbitrary: st)
  case Nil
  show ?case by simp
next
  case (Cons w ws)
  show ?case
  proof (cases "previous st u v \<noteq> 0")
    case True
    then show ?thesis
      using Cons [of "closure_step A u v w st"]
      by (simp add: scan_step_def previous_closure_step)
  next
    case False
    then show ?thesis using Cons [of st] by (simp add: scan_step_def)
  qed
qed

lemma fold_concat_list: "fold f (concat xss) = fold (fold f) xss"
  by (induction xss) simp_all

lemma guard_into_fold_fun:
  "fold (\<lambda>w. scan_step A (u, v, w)) ws =
   (\<lambda>st. if previous st u v \<noteq> 0 then fold (closure_step A u v) ws st else st)"
  by (rule ext) (rule guard_into_fold)

lemma closure_scan_flat: "closure_scan N A st = fold (scan_step A) (triples N) st"
  by (simp add: closure_scan_def triples_def fold_concat_list fold_map comp_def guard_into_fold_fun)

text \<open>
  The scan simulated on the list of pairs discovered so far: a state of the scan is
  determined by that list, the snapshot \<open>P\<close> and the matrix \<open>C\<close> the pass started from.
\<close>

definition abs_step :: "matrix \<Rightarrow> matrix \<Rightarrow> matrix \<Rightarrow> nat \<times> nat \<times> nat \<Rightarrow> (nat \<times> nat) list \<Rightarrow> (nat \<times> nat) list" where
  "abs_step A P C t acc = (case t of (u, v, w) \<Rightarrow>
      if (P u v \<noteq> 0 \<and> A v w \<noteq> 0 \<and> C u w = 0 \<and> u \<noteq> w) \<and> (u, w) \<notin> set acc
      then acc @ [(u, w)] else acc)"

definition rep_state :: "(nat \<times> nat) list \<Rightarrow> int \<Rightarrow> matrix \<Rightarrow> matrix \<Rightarrow> (nat \<times> nat) list \<Rightarrow> closure_state" where
  "rep_state e r P C acc =
     \<lparr>transitiveClosure = overlay C acc, previous = P,
      repeat = (if acc = [] then r else 1), emitted = e @ acc\<rparr>"

lemma overlay_snoc: "set_cell (overlay C acc) u w 1 = overlay C (acc @ [(u, w)])"
  by (intro ext) (auto simp: set_cell_apply overlay_def)

lemma scan_step_rep: "scan_step A t (rep_state e r P C acc) = rep_state e r P C (abs_step A P C t acc)"
proof -
  obtain u v w where t: "t = (u, v, w)" by (cases t) auto
  have z: "overlay C acc u w = 0 \<longleftrightarrow> C u w = 0 \<and> (u, w) \<notin> set acc"
    by (simp add: overlay_def)
  show ?thesis
    unfolding t scan_step_def abs_step_def closure_step_def
    by (simp add: rep_state_def z overlay_snoc)
qed

lemma fold_scan_step_rep:
  "fold (scan_step A) ts (rep_state e r P C acc) = rep_state e r P C (fold (abs_step A P C) ts acc)"
  by (induction ts arbitrary: acc) (simp_all add: scan_step_rep)

lemma fold_first_occurrences:
  "fold (\<lambda>x acc. if Q x \<and> g x \<notin> set acc then acc @ [g x] else acc) xs acc =
   fold (\<lambda>y acc. if y \<in> set acc then acc else acc @ [y]) (map g (filter Q xs)) acc"
  by (induction xs arbitrary: acc) auto

lemma abs_step_fold:
  "fold (abs_step A P C) ts [] =
   first_occurrences (map (\<lambda>(u, v, w). (u, w))
      (filter (\<lambda>(u, v, w). P u v \<noteq> 0 \<and> A v w \<noteq> 0 \<and> C u w = 0 \<and> u \<noteq> w) ts))"
proof -
  have "abs_step A P C = (\<lambda>x acc. if (case x of (u, v, w) \<Rightarrow> P u v \<noteq> 0 \<and> A v w \<noteq> 0 \<and> C u w = 0 \<and> u \<noteq> w)
           \<and> (case x of (u, v, w) \<Rightarrow> (u, w)) \<notin> set acc then acc @ [case x of (u, v, w) \<Rightarrow> (u, w)] else acc)"
    by (intro ext) (auto simp: abs_step_def split: prod.splits)
  then show ?thesis
    by (simp only: first_occurrences_def fold_first_occurrences)
qed

lemma set_triples: "set (triples N) = {(u, v, w). u < N \<and> v < N \<and> w < N}"
  by (fastforce simp: triples_def image_iff)

lemma closure_pass_rep:
  "closure_pass N A st =
     rep_state (emitted st) 0 (copyMatrix N (transitiveClosure st) (previous st)) (transitiveClosure st)
       (discovered N A (transitiveClosure st))"
proof -
  let ?C = "transitiveClosure st"
  let ?P = "copyMatrix N ?C (previous st)"
  have start: "st\<lparr>repeat := 0, previous := ?P\<rparr> = rep_state (emitted st) 0 ?P ?C []"
    by (simp add: rep_state_def overlay_def)
  have filt: "filter (\<lambda>(u, v, w). ?P u v \<noteq> 0 \<and> A v w \<noteq> 0 \<and> ?C u w = 0 \<and> u \<noteq> w) (triples N) =
              filter (\<lambda>(u, v, w). ?C u v \<noteq> 0 \<and> A v w \<noteq> 0 \<and> ?C u w = 0 \<and> u \<noteq> w) (triples N)"
    by (rule filter_cong) (auto simp: set_triples copyMatrix_apply)
  show ?thesis
    by (simp add: closure_pass_def Let_def start closure_scan_flat fold_scan_step_rep
        abs_step_fold filt discovered_def)
qed



lemma fold_first_set:
  "set (fold (\<lambda>y acc. if y \<in> set acc then acc else acc @ [y]) xs acc) = set acc \<union> set xs"
  by (induction xs arbitrary: acc) auto

lemma fold_first_distinct:
  "distinct acc \<Longrightarrow> distinct (fold (\<lambda>y acc. if y \<in> set acc then acc else acc @ [y]) xs acc)"
  by (induction xs arbitrary: acc) auto

lemma set_first_occurrences: "set (first_occurrences xs) = set xs"
  by (simp add: first_occurrences_def fold_first_set)

lemma distinct_first_occurrences: "distinct (first_occurrences xs)"
  by (simp add: first_occurrences_def fold_first_distinct)

lemma set_discovered:
  "set (discovered N A C) =
     {(u, w). u < N \<and> w < N \<and> u \<noteq> w \<and> C u w = 0 \<and> (\<exists>v<N. C u v \<noteq> 0 \<and> A v w \<noteq> 0)}"
proof -
  have "set (discovered N A C) =
        (\<lambda>(u, v, w). (u, w)) ` {t \<in> {(u, v, w). u < N \<and> v < N \<and> w < N}.
            case t of (u, v, w) \<Rightarrow> C u v \<noteq> 0 \<and> A v w \<noteq> 0 \<and> C u w = 0 \<and> u \<noteq> w}"
    by (simp add: discovered_def set_first_occurrences set_triples)
  also have "\<dots> = {(u, w). u < N \<and> w < N \<and> u \<noteq> w \<and> C u w = 0 \<and> (\<exists>v<N. C u v \<noteq> 0 \<and> A v w \<noteq> 0)}"
    by (auto simp: image_iff) force
  finally show ?thesis .
qed

lemma distinct_discovered: "distinct (discovered N A C)"
  by (simp add: discovered_def distinct_first_occurrences)

lemma pass_transitiveClosure:
  "transitiveClosure (closure_pass N A st) =
     overlay (transitiveClosure st) (discovered N A (transitiveClosure st))"
  by (simp add: closure_pass_rep rep_state_def)

lemma pass_emitted:
  "emitted (closure_pass N A st) = emitted st @ discovered N A (transitiveClosure st)"
  by (simp add: closure_pass_rep rep_state_def)

lemma pass_repeat:
  "repeat (closure_pass N A st) = (if discovered N A (transitiveClosure st) = [] then 0 else 1)"
  by (simp add: closure_pass_rep rep_state_def)

lemma pass_previous:
  "previous (closure_pass N A st) = copyMatrix N (transitiveClosure st) (previous st)"
  by (simp add: closure_pass_rep rep_state_def)

subsection \<open>The \<^verbatim>\<open>while (repeat)\<close> loop terminates\<close>

text \<open>
  A pass that sets the flag has filled at least one cell of the closure matrix that was 0,
  and no pass clears a cell: the number of zero cells among the \<open>N * N\<close> cells
  bounds the number of passes.
\<close>

definition zero_cells :: "nat \<Rightarrow> matrix \<Rightarrow> (nat \<times> nat) set" where
  "zero_cells N C = {(u, w). u < N \<and> w < N \<and> C u w = 0}"

lemma finite_zero_cells: "finite (zero_cells N C)"
proof -
  have "zero_cells N C \<subseteq> {0..<N} \<times> {0..<N}" by (auto simp: zero_cells_def)
  then show ?thesis by (rule finite_subset) simp
qed

lemma zero_cells_pass:
  "zero_cells N (transitiveClosure (closure_pass N A st)) =
   zero_cells N (transitiveClosure st) - set (discovered N A (transitiveClosure st))"
  by (auto simp: zero_cells_def pass_transitiveClosure overlay_def)

lemma discovered_zero_cells: "set (discovered N A C) \<subseteq> zero_cells N C"
  by (auto simp: set_discovered zero_cells_def)

lemma pass_decreases:
  assumes "repeat (closure_pass N A st) \<noteq> 0"
  shows "card (zero_cells N (transitiveClosure (closure_pass N A st))) <
         card (zero_cells N (transitiveClosure st))"
proof -
  let ?D = "discovered N A (transitiveClosure st)"
  from assms have "?D \<noteq> []" by (simp add: pass_repeat split: if_splits)
  then obtain p where p: "p \<in> set ?D" by (cases ?D) auto
  with discovered_zero_cells have pz: "p \<in> zero_cells N (transitiveClosure st)" by blast
  have "zero_cells N (transitiveClosure (closure_pass N A st)) \<subset> zero_cells N (transitiveClosure st)"
    using p pz by (auto simp: zero_cells_pass)
  then show ?thesis by (rule psubset_card_mono [OF finite_zero_cells])
qed

definition loop_measure :: "nat \<Rightarrow> closure_state \<Rightarrow> nat" where
  "loop_measure N st =
     2 * card (zero_cells N (transitiveClosure st)) + (if repeat st \<noteq> 0 then 1 else 0)"

lemma pass_measure:
  assumes r: "repeat st \<noteq> 0"
  shows "loop_measure N (closure_pass N A st) < loop_measure N st"
proof (cases "repeat (closure_pass N A st) \<noteq> 0")
  case True
  from pass_decreases [OF True] show ?thesis using r by (simp add: loop_measure_def)
next
  case False
  have "zero_cells N (transitiveClosure (closure_pass N A st)) \<subseteq> zero_cells N (transitiveClosure st)"
    by (auto simp: zero_cells_pass)
  then have "card (zero_cells N (transitiveClosure (closure_pass N A st)))
             \<le> card (zero_cells N (transitiveClosure st))"
    by (rule card_mono [OF finite_zero_cells])
  with False r show ?thesis by (simp add: loop_measure_def)
qed

text \<open>
  \<^verbatim>\<open>while (repeat) { ... }\<close> (lines 357-387): the test comes first, and
  \<^verbatim>\<open>repeat\<close> is 1 when the loop is entered.
\<close>

function closure_while :: "nat \<Rightarrow> matrix \<Rightarrow> closure_state \<Rightarrow> closure_state" where
  "closure_while N cityMatrix st =
     (if repeat st \<noteq> 0 then closure_while N cityMatrix (closure_pass N cityMatrix st) else st)"
  by pat_completeness auto
termination
  by (relation "measure (\<lambda>(N, A, st). loop_measure N st)") (simp_all add: pass_measure)

declare closure_while.simps [simp del]

text \<open>
  The number of times the body of the loop runs (a counter the source does not keep).
\<close>

function closure_passes :: "nat \<Rightarrow> matrix \<Rightarrow> closure_state \<Rightarrow> nat" where
  "closure_passes N cityMatrix st =
     (if repeat st \<noteq> 0 then Suc (closure_passes N cityMatrix (closure_pass N cityMatrix st)) else 0)"
  by pat_completeness auto
termination
  by (relation "measure (\<lambda>(N, A, st). loop_measure N st)") (simp_all add: pass_measure)

declare closure_passes.simps [simp del]

text \<open>
  The state in which the loop is entered (lines 333-357): the closure matrix is a copy
  of the adjacency matrix in a fresh matrix, the cells that are 1 have been printed,
  \<^verbatim>\<open>previous\<close> is a fresh matrix and \<^verbatim>\<open>repeat\<close> is 1.
\<close>

definition closure_init :: "nat \<Rightarrow> matrix \<Rightarrow> closure_state" where
  "closure_init N cityMatrix =
     (let tc = copyMatrix N cityMatrix createMatrix;
          out = emit_initial N tc []
      in \<lparr>transitiveClosure = tc, previous = createMatrix, repeat = 1, emitted = out\<rparr>)"

text \<open>
  The whole of \<^verbatim>\<open>calculateTransitiveClosure\<close>; the result is the printed sequence
  of pairs.
\<close>

definition calculateTransitiveClosure :: "nat \<Rightarrow> matrix \<Rightarrow> (nat \<times> nat) list" where
  "calculateTransitiveClosure N cityMatrix =
     emitted (closure_while N cityMatrix (closure_init N cityMatrix))"

subsection \<open>The initial pass and invariants of the loop\<close>

text \<open>The cells of the matrix in row-major order.\<close>

definition cells :: "nat \<Rightarrow> (nat \<times> nat) list" where
  "cells N = concat (map (\<lambda>u. map (\<lambda>w. (u, w)) [0..<N]) [0..<N])"

lemma set_cells: "set (cells N) = {(u, w). u < N \<and> w < N}"
  by (auto simp: cells_def)

lemma distinct_cells: "distinct (cells N)"
  unfolding cells_def
  by (rule distinct_concat) (auto simp: distinct_map inj_on_def)

lemma emit_row: "fold (\<lambda>w out. if tc u w = 1 then out @ [(u, w)] else out) ws out =
   out @ filter (\<lambda>(u, w). tc u w = 1) (map (\<lambda>w. (u, w)) ws)"
  by (induction ws arbitrary: out) simp_all

lemma emit_rows: "fold (\<lambda>u. fold (\<lambda>w out. if tc u w = 1 then out @ [(u, w)] else out) ws) us out =
   out @ filter (\<lambda>(u, w). tc u w = 1) (concat (map (\<lambda>u. map (\<lambda>w. (u, w)) ws) us))"
  by (induction us arbitrary: out) (simp_all add: emit_row)

lemma emit_initial_eq: "emit_initial N tc out = out @ filter (\<lambda>(u, w). tc u w = 1) (cells N)"
  by (simp add: emit_initial_def emit_rows cells_def)

lemma closure_while_invariant:
  assumes "I st" and "\<And>s. I s \<Longrightarrow> I (closure_pass N A s)"
  shows "I (closure_while N A st)"
  using assms
proof (induction N A st rule: closure_while.induct)
  case (1 N A st)
  show ?case
  proof (cases "repeat st \<noteq> 0")
    case True
    have "I (closure_while N A (closure_pass N A st))"
      by (rule "1.IH" [OF True]) (use 1 in auto)
    with True show ?thesis by (subst closure_while.simps) simp
  next
    case False
    with 1 show ?thesis by (subst closure_while.simps) simp
  qed
qed

lemma step_cell: "transitiveClosure (closure_step A u v w st) i j = transitiveClosure st i j \<or>
       (transitiveClosure st i j = 0 \<and> transitiveClosure (closure_step A u v w st) i j = 1)"
  by (simp add: closure_step_def set_cell_apply)

lemma pass_cell: "transitiveClosure (closure_pass N A st) i j = transitiveClosure st i j \<or>
       (transitiveClosure st i j = 0 \<and> transitiveClosure (closure_pass N A st) i j = 1)"
  by (auto simp add: pass_transitiveClosure overlay_def set_discovered)

lemma while_cell: "transitiveClosure (closure_while N A st) i j = transitiveClosure st i j \<or>
       (transitiveClosure st i j = 0 \<and> transitiveClosure (closure_while N A st) i j = 1)"
proof (rule closure_while_invariant [where I = "\<lambda>s. transitiveClosure s i j = transitiveClosure st i j \<or>
       (transitiveClosure st i j = 0 \<and> transitiveClosure s i j = 1)"])
  show "transitiveClosure st i j = transitiveClosure st i j \<or>
    transitiveClosure st i j = 0 \<and> transitiveClosure st i j = 1" by simp
next
  fix s :: closure_state assume "transitiveClosure s i j = transitiveClosure st i j \<or>
         transitiveClosure st i j = 0 \<and> transitiveClosure s i j = 1"
  then show "transitiveClosure (closure_pass N A s) i j = transitiveClosure st i j \<or>
         transitiveClosure st i j = 0 \<and> transitiveClosure (closure_pass N A s) i j = 1"
    using pass_cell [of N A s i j] by auto
qed

text \<open>
  What has been printed: no pair twice, and only pairs whose cell is set in the closure
  matrix.
\<close>

definition emitted_ok :: "closure_state \<Rightarrow> bool" where
  "emitted_ok st \<longleftrightarrow> distinct (emitted st) \<and> (\<forall>p \<in> set (emitted st). transitiveClosure st (fst p) (snd p) \<noteq> 0)"

lemma emitted_ok_pass: "emitted_ok st \<Longrightarrow> emitted_ok (closure_pass N A st)"
  unfolding emitted_ok_def pass_emitted pass_transitiveClosure
  by (auto simp: distinct_discovered overlay_def set_discovered)

lemma emitted_ok_init: "emitted_ok (closure_init N A)"
  by (auto simp: emitted_ok_def closure_init_def Let_def emit_initial_eq distinct_cells)

lemma distinct_calc: "distinct (calculateTransitiveClosure N A)"
proof -
  have "emitted_ok (closure_while N A (closure_init N A))"
    by (rule closure_while_invariant [OF emitted_ok_init emitted_ok_pass])
  then show ?thesis by (simp add: calculateTransitiveClosure_def emitted_ok_def)
qed


subsection \<open>Walks in the graph\<close>

text \<open>
  The edges of the graph on the vertices \<open>0..<N\<close> (a cell that is not 0 is an edge, as
  the tests of the source read it), and the nonempty directed walks: the transitive
  closure of the edge relation.
\<close>

definition edges :: "nat \<Rightarrow> matrix \<Rightarrow> (nat \<times> nat) set" where
  "edges N A = {(u, w). u < N \<and> w < N \<and> A u w \<noteq> 0}"

definition walk :: "nat \<Rightarrow> matrix \<Rightarrow> nat \<Rightarrow> nat \<Rightarrow> bool" where
  "walk N A u w \<longleftrightarrow> (u, w) \<in> (edges N A)\<^sup>+"

text \<open>
  The matrix holds only 0 and 1 on the \<open>N * N\<close> cells: the adjacency matrices of the
  input format.
\<close>

definition adjacency01 :: "nat \<Rightarrow> matrix \<Rightarrow> bool" where
  "adjacency01 N A \<longleftrightarrow> (\<forall>p \<in> set (cells N). A (fst p) (snd p) = 0 \<or> A (fst p) (snd p) = 1)"

lemma adjacency01_cell: "adjacency01 N A \<Longrightarrow> u < N \<Longrightarrow> w < N \<Longrightarrow> A u w = 0 \<or> A u w = 1"
  by (auto simp: adjacency01_def set_cells)

text \<open>
  The invariant of the loop: the closure matrix contains the adjacency matrix; every
  set cell is an edge or joins two different vertices linked by a walk; the printed
  pairs are the cells that are 1 in the adjacency matrix and the cells set since; and
  when the flag is 0 the last pass found nothing.
\<close>

definition closure_inv :: "nat \<Rightarrow> matrix \<Rightarrow> closure_state \<Rightarrow> bool" where
  "closure_inv N A st \<longleftrightarrow>
     (\<forall>u w. u < N \<and> w < N \<and> A u w \<noteq> 0 \<longrightarrow> transitiveClosure st u w \<noteq> 0) \<and>
     (\<forall>u w. u < N \<and> w < N \<and> transitiveClosure st u w \<noteq> 0 \<longrightarrow> A u w \<noteq> 0 \<or> (u \<noteq> w \<and> walk N A u w)) \<and>
     set (emitted st) = {(u, w). u < N \<and> w < N \<and> (A u w = 1 \<or> (A u w = 0 \<and> transitiveClosure st u w \<noteq> 0))} \<and>
     (repeat st = 0 \<longrightarrow> discovered N A (transitiveClosure st) = [])"

lemma edge_walk: "u < N \<Longrightarrow> w < N \<Longrightarrow> A u w \<noteq> 0 \<Longrightarrow> walk N A u w"
  by (auto simp: walk_def edges_def)

lemma walk_step: "walk N A u v \<Longrightarrow> w < N \<Longrightarrow> v < N \<Longrightarrow> A v w \<noteq> 0 \<Longrightarrow> walk N A u w"
  unfolding walk_def by (rule trancl_into_trancl) (auto simp: edges_def)

lemma closure_inv_init: "closure_inv N A (closure_init N A)"
  by (auto simp: closure_inv_def closure_init_def Let_def emit_initial_eq copyMatrix_apply set_cells)

lemma closure_inv_pass:
  assumes inv: "closure_inv N A st"
  shows "closure_inv N A (closure_pass N A st)"
proof -
  let ?C = "transitiveClosure st"
  let ?D = "discovered N A ?C"
  let ?C' = "overlay ?C ?D"
  from inv have i1: "\<And>u w. u < N \<Longrightarrow> w < N \<Longrightarrow> A u w \<noteq> 0 \<Longrightarrow> ?C u w \<noteq> 0"
    and i2: "\<And>u w. u < N \<Longrightarrow> w < N \<Longrightarrow> ?C u w \<noteq> 0 \<Longrightarrow> A u w \<noteq> 0 \<or> (u \<noteq> w \<and> walk N A u w)"
    and i3: "set (emitted st) = {(u, w). u < N \<and> w < N \<and> (A u w = 1 \<or> (A u w = 0 \<and> ?C u w \<noteq> 0))}"
    by (auto simp: closure_inv_def)
  have c': "\<And>u w. ?C' u w \<noteq> 0 \<longleftrightarrow> ?C u w \<noteq> 0 \<or> (u, w) \<in> set ?D"
    by (simp add: overlay_def)
  have walkC: "walk N A u v" if "u < N" "v < N" "?C u v \<noteq> 0" for u v
    using i2 [OF that] edge_walk [OF that(1,2)] by blast
  have dwalk: "u \<noteq> w \<and> walk N A u w \<and> u < N \<and> w < N \<and> ?C u w = 0" if "(u, w) \<in> set ?D" for u w
  proof -
    from that obtain v where v: "u < N" "w < N" "u \<noteq> w" "?C u w = 0" "v < N" "?C u v \<noteq> 0" "A v w \<noteq> 0"
      by (auto simp: set_discovered)
    from walk_step [OF walkC [OF v(1,5,6)] v(2,5,7)] v show ?thesis by simp
  qed
  have n1: "\<forall>u w. u < N \<and> w < N \<and> A u w \<noteq> 0 \<longrightarrow> ?C' u w \<noteq> 0"
    using i1 by (simp add: c')
  have n2: "\<forall>u w. u < N \<and> w < N \<and> ?C' u w \<noteq> 0 \<longrightarrow> A u w \<noteq> 0 \<or> (u \<noteq> w \<and> walk N A u w)"
    using i2 dwalk unfolding c' by blast
  have dA: "A u w = 0" if "(u, w) \<in> set ?D" for u w
    using dwalk [OF that] i1 [of u w] by auto
  have n3: "set (emitted st @ ?D) = {(u, w). u < N \<and> w < N \<and> (A u w = 1 \<or> (A u w = 0 \<and> ?C' u w \<noteq> 0))}"
    unfolding set_append i3 c' using dwalk dA by auto
  have n4: "repeat (closure_pass N A st) = 0 \<longrightarrow> discovered N A ?C' = []"
  proof
    assume "repeat (closure_pass N A st) = 0"
    then have "?D = []" by (simp add: pass_repeat split: if_splits)
    then have "?C' = ?C" by (simp add: overlay_def)
    with \<open>?D = []\<close> show "discovered N A ?C' = []" by simp
  qed
  show ?thesis
    unfolding closure_inv_def pass_transitiveClosure pass_emitted
    using n1 n2 n3 n4 by blast
qed

lemma closure_while_repeat: "repeat (closure_while N A st) = 0"
proof (induction N A st rule: closure_while.induct)
  case (1 N A st)
  then show ?case by (subst closure_while.simps) simp
qed

lemma closed_complete:
  assumes i1: "\<And>u w. u < N \<Longrightarrow> w < N \<Longrightarrow> A u w \<noteq> 0 \<Longrightarrow> C u w \<noteq> 0"
    and closed: "discovered N A C = []"
    and w: "walk N A u w"
  shows "w \<noteq> u \<longrightarrow> C u w \<noteq> 0"
  using w unfolding walk_def
proof (induction rule: trancl_induct)
  case (base y)
  then show ?case using i1 by (auto simp: edges_def)
next
  case (step y z)
  from step.hyps have u: "u < N" by (metis (no_types, lifting) edges_def mem_Collect_eq case_prodD tranclD)
  from step.hyps have yz: "y < N" "z < N" "A y z \<noteq> 0" by (auto simp: edges_def)
  show ?case
  proof
    assume zu: "z \<noteq> u"
    show "C u z \<noteq> 0"
    proof (cases "y = u")
      case True
      with yz i1 show ?thesis by auto
    next
      case False
      with step.IH have cy: "C u y \<noteq> 0" by simp
      show ?thesis
      proof (rule ccontr)
        assume "\<not> C u z \<noteq> 0"
        with u yz cy zu have "(u, z) \<in> set (discovered N A C)"
          by (auto simp: set_discovered)
        with closed show False by simp
      qed
    qed
  qed
qed

lemma calc_set_general:
  "(u, w) \<in> set (calculateTransitiveClosure N A) \<longleftrightarrow>
     u < N \<and> w < N \<and> (A u w = 1 \<or> (A u w = 0 \<and> u \<noteq> w \<and> walk N A u w))"
proof -
  let ?f = "closure_while N A (closure_init N A)"
  have inv: "closure_inv N A ?f"
    by (rule closure_while_invariant [OF closure_inv_init closure_inv_pass])
  have closed: "discovered N A (transitiveClosure ?f) = []"
    using inv closure_while_repeat [of N A "closure_init N A"] by (simp add: closure_inv_def)
  from inv have i1: "\<And>u w. u < N \<Longrightarrow> w < N \<Longrightarrow> A u w \<noteq> 0 \<Longrightarrow> transitiveClosure ?f u w \<noteq> 0"
    and i2: "\<And>u w. u < N \<Longrightarrow> w < N \<Longrightarrow> transitiveClosure ?f u w \<noteq> 0 \<Longrightarrow> A u w \<noteq> 0 \<or> (u \<noteq> w \<and> walk N A u w)"
    and i3: "set (emitted ?f) = {(u, w). u < N \<and> w < N \<and> (A u w = 1 \<or> (A u w = 0 \<and> transitiveClosure ?f u w \<noteq> 0))}"
    by (auto simp: closure_inv_def)
  have "transitiveClosure ?f u w \<noteq> 0" if "walk N A u w" "u \<noteq> w"
    using closed_complete [OF i1 closed that(1)] that(2) by auto
  with i2 [of u w] show ?thesis
    unfolding calculateTransitiveClosure_def i3 by auto
qed

subsection \<open>The printed sequence: the initial pass, then what the passes discover\<close>

lemma distinct_count_one: "distinct xs \<Longrightarrow> x \<in> set xs \<Longrightarrow> count_list xs x = 1"
  by (induction xs) auto

lemma closure_while_emitted_off_diagonal:
  "\<exists>rest. emitted (closure_while N A st) = emitted st @ rest \<and> (\<forall>p \<in> set rest. fst p \<noteq> snd p)"
proof (rule closure_while_invariant
    [where I = "\<lambda>s. \<exists>rest. emitted s = emitted st @ rest \<and> (\<forall>p \<in> set rest. fst p \<noteq> snd p)"])
  show "\<exists>rest. emitted st = emitted st @ rest \<and> (\<forall>p \<in> set rest. fst p \<noteq> snd p)"
    by (rule exI [of _ "[]"]) simp
next
  fix s :: closure_state
  assume "\<exists>rest. emitted s = emitted st @ rest \<and> (\<forall>p \<in> set rest. fst p \<noteq> snd p)"
  then obtain rest where r: "emitted s = emitted st @ rest" "\<forall>p \<in> set rest. fst p \<noteq> snd p"
    by blast
  have "emitted (closure_pass N A s) = emitted st @ (rest @ discovered N A (transitiveClosure s))"
    by (simp add: pass_emitted r)
  moreover have "\<forall>p \<in> set (rest @ discovered N A (transitiveClosure s)). fst p \<noteq> snd p"
    using r(2) by (auto simp: set_discovered)
  ultimately show "\<exists>rest. emitted (closure_pass N A s) = emitted st @ rest \<and> (\<forall>p \<in> set rest. fst p \<noteq> snd p)"
    by blast
qed

lemma calc_split:
  fixes N A
  defines "init \<equiv> emit_initial N (copyMatrix N A createMatrix) []"
  shows "take (length init) (calculateTransitiveClosure N A) = init"
    and "\<forall>p \<in> set (drop (length init) (calculateTransitiveClosure N A)). fst p \<noteq> snd p"
proof -
  obtain rest where r: "emitted (closure_while N A (closure_init N A)) = emitted (closure_init N A) @ rest"
      "\<forall>p \<in> set rest. fst p \<noteq> snd p"
    using closure_while_emitted_off_diagonal by blast
  have e: "emitted (closure_init N A) = init"
    by (simp add: closure_init_def Let_def init_def)
  show "take (length init) (calculateTransitiveClosure N A) = init"
    by (simp add: calculateTransitiveClosure_def r(1) e)
  show "\<forall>p \<in> set (drop (length init) (calculateTransitiveClosure N A)). fst p \<noteq> snd p"
    using r(2) by (simp add: calculateTransitiveClosure_def r(1) e)
qed

lemma self_loop_initial:
  "u < N \<Longrightarrow> A u u = 1 \<Longrightarrow> (u, u) \<in> set (emit_initial N (copyMatrix N A createMatrix) [])"
  by (simp add: emit_initial_eq set_cells copyMatrix_apply)
















subsection \<open>A fixed point is reached within \<open>N\<close> passes\<close>

text \<open>
  Row \<open>u\<close> of the closure matrix as a set of vertices, and what one pass does to it:
  the pass adds the successors, other than \<open>u\<close>, of the vertices in the row.  The new
  row depends on the old row only, so a row that a pass leaves unchanged stays unchanged;
  a row that changes gains a vertex, and it holds at most \<open>N\<close> of them.
\<close>

definition row :: "nat \<Rightarrow> matrix \<Rightarrow> nat \<Rightarrow> nat set" where
  "row N C u = {w. w < N \<and> C u w \<noteq> 0}"

definition grow :: "nat \<Rightarrow> matrix \<Rightarrow> nat \<Rightarrow> nat set \<Rightarrow> nat set" where
  "grow N A u S = S \<union> {w. w < N \<and> w \<noteq> u \<and> (\<exists>v \<in> S. A v w \<noteq> 0)}"

lemma row_overlay:
  "u < N \<Longrightarrow> row N (overlay C (discovered N A C)) u = grow N A u (row N C u)"
  by (auto simp: row_def grow_def overlay_def set_discovered)

lemma discovered_empty_iff:
  "discovered N A C = [] \<longleftrightarrow> (\<forall>u<N. grow N A u (row N C u) = row N C u)"
proof
  assume "discovered N A C = []"
  then have e: "set (discovered N A C) = {}" by simp
  show "\<forall>u<N. grow N A u (row N C u) = row N C u"
  proof (intro allI impI)
    fix u assume u: "u < N"
    have "row N (overlay C (discovered N A C)) u = row N C u"
      using \<open>discovered N A C = []\<close> by (simp add: overlay_def)
    with row_overlay [OF u, of C A] show "grow N A u (row N C u) = row N C u" by simp
  qed
next
  assume st: "\<forall>u<N. grow N A u (row N C u) = row N C u"
  show "discovered N A C = []"
  proof (cases "discovered N A C")
    case Nil
    then show ?thesis .
  next
    case (Cons p ps)
    obtain u w where p: "p = (u, w)" by (cases p) auto
    with Cons have "(u, w) \<in> set (discovered N A C)" by simp
    then obtain v where v: "u < N" "w < N" "u \<noteq> w" "C u w = 0" "v < N" "C u v \<noteq> 0" "A v w \<noteq> 0"
      by (auto simp: set_discovered)
    then have "w \<in> grow N A u (row N C u)" by (auto simp: grow_def row_def)
    with st v(1) have "w \<in> row N C u" by simp
    with v(4) show ?thesis by (simp add: row_def)
  qed
qed

lemma grow_empty: "grow N A u {} = {}"
  by (simp add: grow_def)

lemma grow_superset: "S \<subseteq> grow N A u S"
  by (auto simp: grow_def)

lemma grow_bounded: "S \<subseteq> {..<N} \<Longrightarrow> grow N A u S \<subseteq> {..<N}"
  by (auto simp: grow_def)

text \<open>A chain of sets that grows strictly at every step gains an element per step.\<close>

lemma strict_chain_card:
  fixes S :: "nat \<Rightarrow> nat set"
  assumes fin: "\<And>k. finite (S k)"
    and sub: "\<And>k. S k \<subseteq> S (Suc k)"
    and ne: "\<And>k. k \<le> m \<Longrightarrow> S (Suc k) \<noteq> S k"
    and s0: "S 0 \<noteq> {}"
  shows "k \<le> Suc m \<Longrightarrow> Suc k \<le> card (S k)"
proof (induction k)
  case 0
  from s0 fin [of 0] have "card (S 0) \<noteq> 0" by simp
  then show ?case by simp
next
  case (Suc k)
  then have k: "k \<le> m" by simp
  from sub [of k] ne [OF k] have "S k \<subset> S (Suc k)" by blast
  then have "card (S k) < card (S (Suc k))" by (rule psubset_card_mono [OF fin])
  with Suc show ?case by simp
qed

lemma stable_stays:
  fixes S :: "nat \<Rightarrow> nat set"
  assumes step: "\<And>k. S (Suc k) = g (S k)" and st: "S (Suc k) = S k"
  shows "S (k + j) = S k"
proof (induction j)
  case 0
  show ?case by simp
next
  case (Suc j)
  have "S (k + Suc j) = g (S (k + j))" by (simp add: step)
  also have "\<dots> = g (S k)" by (simp add: Suc)
  also have "\<dots> = S k" using st by (simp add: step)
  finally show ?case .
qed

lemma chain_stable:
  fixes S :: "nat \<Rightarrow> nat set"
  assumes step: "\<And>k. S (Suc k) = g (S k)"
    and sub: "\<And>T. T \<subseteq> g T"
    and bound: "\<And>k. S k \<subseteq> {..<N}"
    and empty: "g {} = {}"
    and N: "0 < N"
  shows "S N = S (N - 1)"
proof (rule ccontr)
  assume unstable: "S N \<noteq> S (N - 1)"
  obtain m where m: "N = Suc m" using N by (cases N) auto
  have fin: "\<And>k. finite (S k)" using bound by (rule finite_subset) simp
  have ne: "S (Suc k) \<noteq> S k" if "k \<le> m" for k
  proof
    assume eq: "S (Suc k) = S k"
    from that obtain j where j: "m = k + j" by (auto simp: le_iff_add)
    have "S (k + j) = S k" by (rule stable_stays [OF step eq])
    moreover have "S (k + Suc j) = S k" by (rule stable_stays [OF step eq])
    ultimately show False using unstable by (simp add: m j)
  qed
  have s0: "S 0 \<noteq> {}"
  proof
    assume "S 0 = {}"
    then have "S (Suc 0) = S 0" by (simp add: step empty)
    with ne [of 0] show False by simp
  qed
  have "Suc (Suc m) \<le> card (S (Suc m))"
    by (rule strict_chain_card [where m = m, OF fin _ ne s0]) (simp_all add: step sub)
  moreover have "card (S (Suc m)) \<le> card {..<N}"
    by (rule card_mono) (simp_all add: bound)
  ultimately show False by (simp add: m)
qed

text \<open>The closure matrix after \<open>k\<close> passes.\<close>

definition tc_after :: "nat \<Rightarrow> matrix \<Rightarrow> closure_state \<Rightarrow> nat \<Rightarrow> matrix" where
  "tc_after N A st k = transitiveClosure ((closure_pass N A ^^ k) st)"

lemma tc_after_Suc:
  "tc_after N A st (Suc k) = overlay (tc_after N A st k) (discovered N A (tc_after N A st k))"
  by (simp add: tc_after_def pass_transitiveClosure)

lemma fixpoint_before_N:
  assumes "0 < N"
  shows "discovered N A (tc_after N A st (N - 1)) = []"
  unfolding discovered_empty_iff
proof (intro allI impI)
  fix u assume u: "u < N"
  let ?S = "\<lambda>k. row N (tc_after N A st k) u"
  have "?S N = ?S (N - 1)"
  proof (rule chain_stable [where g = "grow N A u"])
    show "\<And>k. ?S (Suc k) = grow N A u (?S k)"
      by (simp add: tc_after_Suc row_overlay [OF u])
    show "\<And>T. T \<subseteq> grow N A u T" by (rule grow_superset)
    show "\<And>k. ?S k \<subseteq> {..<N}" by (auto simp: row_def)
    show "grow N A u {} = {}" by (rule grow_empty)
    show "0 < N" by (rule assms)
  qed
  moreover from assms have "N = Suc (N - 1)" by simp
  then have "?S N = grow N A u (?S (N - 1))"
    using tc_after_Suc [of N A st "N - 1"] row_overlay [OF u, of "tc_after N A st (N - 1)" A] by simp
  ultimately show "grow N A u (?S (N - 1)) = ?S (N - 1)" by simp
qed

lemma discovered_none: "discovered 0 A C = []"
  by (simp add: discovered_def triples_def first_occurrences_def)

lemma overlay_nil: "overlay C [] = C"
  by (simp add: overlay_def)

lemma fixpoint_at_N: "discovered N A (tc_after N A st N) = []"
proof (cases N)
  case 0
  then show ?thesis by (simp add: discovered_none)
next
  case (Suc m)
  then have "discovered N A (tc_after N A st m) = []"
    using fixpoint_before_N [of N A st] by simp
  then have "tc_after N A st (Suc m) = tc_after N A st m"
    by (simp add: tc_after_Suc overlay_nil)
  with \<open>discovered N A (tc_after N A st m) = []\<close> Suc show ?thesis by simp
qed

lemma pass_idem:
  assumes "discovered N A (transitiveClosure st) = []"
  shows "closure_pass N A (closure_pass N A st) = closure_pass N A st"
proof -
  have c: "copyMatrix N C (copyMatrix N C P) = copyMatrix N C P" for C P
    by (intro ext) (simp add: copyMatrix_apply)
  show ?thesis
    by (simp add: closure_pass_rep [of N A "closure_pass N A st"] pass_transitiveClosure pass_emitted
        pass_previous assms overlay_nil c)
       (simp add: closure_pass_rep [of N A st] assms)
qed

lemma pass_idem_funpow:
  assumes "discovered N A (transitiveClosure st) = []"
  shows "(closure_pass N A ^^ Suc k) st = closure_pass N A st"
proof (induction k)
  case 0
  show ?case by simp
next
  case (Suc k)
  have "(closure_pass N A ^^ Suc (Suc k)) st = closure_pass N A ((closure_pass N A ^^ Suc k) st)"
    by simp
  also have "\<dots> = closure_pass N A (closure_pass N A st)" by (simp only: Suc)
  also have "\<dots> = closure_pass N A st" by (rule pass_idem [OF assms])
  finally show ?case .
qed

lemma while_funpow:
  "repeat st \<noteq> 0 \<Longrightarrow> discovered N A (tc_after N A st k) = [] \<Longrightarrow>
   closure_while N A st = (closure_pass N A ^^ Suc k) st"
proof (induction k arbitrary: st)
  case 0
  then have "repeat (closure_pass N A st) = 0" by (simp add: pass_repeat tc_after_def)
  then have "closure_while N A (closure_pass N A st) = closure_pass N A st"
    by (subst closure_while.simps) simp
  with 0 show ?case by (subst closure_while.simps) simp
next
  case (Suc k)
  have w: "closure_while N A st = closure_while N A (closure_pass N A st)"
    using Suc.prems by (subst closure_while.simps) simp
  show ?case
  proof (cases "repeat (closure_pass N A st) \<noteq> 0")
    case True
    have "discovered N A (tc_after N A (closure_pass N A st) k) = []"
      using Suc.prems(2) by (simp add: tc_after_def funpow_swap1)
    from Suc.IH [OF True this] show ?thesis
      by (simp add: w funpow_swap1)
  next
    case False
    then have d: "discovered N A (transitiveClosure st) = []"
      by (simp add: pass_repeat split: if_splits)
    from False have "closure_while N A (closure_pass N A st) = closure_pass N A st"
      by (subst closure_while.simps) simp
    with pass_idem_funpow [OF d, of "Suc k"] show ?thesis by (simp only: w)
  qed
qed

lemma passes_bound:
  "repeat st \<noteq> 0 \<Longrightarrow> discovered N A (tc_after N A st k) = [] \<Longrightarrow>
   closure_passes N A st \<le> Suc k"
proof (induction k arbitrary: st)
  case 0
  then have "repeat (closure_pass N A st) = 0" by (simp add: pass_repeat tc_after_def)
  then have "closure_passes N A (closure_pass N A st) = 0"
    by (subst closure_passes.simps) simp
  with 0 show ?case by (subst closure_passes.simps) simp
next
  case (Suc k)
  have w: "closure_passes N A st = Suc (closure_passes N A (closure_pass N A st))"
    using Suc.prems by (subst closure_passes.simps) simp
  show ?case
  proof (cases "repeat (closure_pass N A st) \<noteq> 0")
    case True
    have "discovered N A (tc_after N A (closure_pass N A st) k) = []"
      using Suc.prems(2) by (simp add: tc_after_def funpow_swap1)
    from Suc.IH [OF True this] show ?thesis by (simp add: w)
  next
    case False
    then have "closure_passes N A (closure_pass N A st) = 0"
      by (subst closure_passes.simps) simp
    then show ?thesis by (simp add: w)
  qed
qed

lemma init_repeat: "repeat (closure_init N A) = 1"
  by (simp add: closure_init_def Let_def)

subsection \<open>The path finder: \<^verbatim>\<open>findPath\<close>\<close>

text \<open>
  The memory \<^verbatim>\<open>findPath\<close> works on: the global adjacency matrix, the arrays
  \<^verbatim>\<open>visited\<close> and \<^verbatim>\<open>path\<close> (each of \<open>N\<close> cells, allocated by
  \<^verbatim>\<open>implementR\<close>) and the paths printed on standard output.  Vertices and array
  indices are natural numbers: the model covers the calls with
  \<open>0 \<le> source\<close> and \<open>0 \<le> pathIndex\<close>.  C does not check array bounds, and an
  access outside an array is undefined; the field \<open>in_bounds\<close> (not a variable of
  the source) records that every array access so far was inside its array, that is
  \<open>source < N\<close> and \<open>pathIndex < N\<close> at every entry of \<^verbatim>\<open>findPath\<close>.
\<close>

record memory =
  cityMatrix :: matrix
  visited :: "nat \<Rightarrow> int"
  path :: "nat \<Rightarrow> nat"
  printed :: "nat list list"
  in_bounds :: bool

text \<open>
  \<^verbatim>\<open>findPath\<close> (lines 202-234) and its \<^verbatim>\<open>for\<close> loop, which calls
  \<^verbatim>\<open>findPath\<close> and returns from inside the loop: the loop is the second function,
  at loop index \<open>i\<close>.  The result is the returned int and the memory at return.
\<close>

function findPath :: "nat \<Rightarrow> nat \<Rightarrow> nat \<Rightarrow> nat \<Rightarrow> memory \<Rightarrow> int \<times> memory"
  and findPath_loop :: "nat \<Rightarrow> nat \<Rightarrow> nat \<Rightarrow> nat \<Rightarrow> nat \<Rightarrow> memory \<Rightarrow> int \<times> memory"
where
  "findPath N source destination pathIndex m =
     (let m1 = m\<lparr>in_bounds := in_bounds m \<and> source < N \<and> pathIndex < N,
                   visited := (visited m)(source := 1),
                   path := (path m)(pathIndex := source)\<rparr>;
          pathIndex1 = pathIndex + 1
      in if source = destination
         then (1, m1\<lparr>printed := printed m1 @ [map (path m1) [0..<pathIndex1]]\<rparr>)
         else findPath_loop N source destination pathIndex1 0 m1)"
| "findPath_loop N source destination pathIndex i m =
     (if i < N then
        (if visited m i = 0 \<and> cityMatrix m source i \<noteq> 0
         then (case findPath N i destination pathIndex m of
                 (r, m') \<Rightarrow> if r \<noteq> 0 then (1, m')
                            else findPath_loop N source destination pathIndex (i + 1) m')
         else findPath_loop N source destination pathIndex (i + 1) m)
      else (0, m\<lparr>visited := (visited m)(source := 0)\<rparr>))"
  by pat_completeness auto

text \<open>
  Termination rests on a property of the function itself: a call that fails has
  unmarked its own vertex and left the other marks as they were, so every call made by
  the loop sees the marks the loop started with.
\<close>

definition unvisited :: "nat \<Rightarrow> (nat \<Rightarrow> int) \<Rightarrow> nat set" where
  "unvisited N vis = {j. j < N \<and> vis j = 0}"

lemma finite_unvisited: "finite (unvisited N vis)"
  by (simp add: unvisited_def)

lemma unvisited_mark:
  assumes "i < N" "vis i = 0"
  shows "card (unvisited N (vis(i := 1))) < card (unvisited N vis)"
proof -
  have "unvisited N (vis(i := 1)) \<subset> unvisited N vis"
    using assms by (auto simp: unvisited_def)
  then show ?thesis by (rule psubset_card_mono [OF finite_unvisited])
qed

lemma findPath_restores_dom:
  "findPath_findPath_loop_dom (Inl (N, source, destination, pathIndex, m)) \<Longrightarrow>
     fst (findPath N source destination pathIndex m) = 0 \<Longrightarrow>
     visited (snd (findPath N source destination pathIndex m)) = (visited m)(source := 0)"
  "findPath_findPath_loop_dom (Inr (N, source, destination, pathIndex, i, m)) \<Longrightarrow>
     fst (findPath_loop N source destination pathIndex i m) = 0 \<Longrightarrow>
     visited (snd (findPath_loop N source destination pathIndex i m)) = (visited m)(source := 0)"
proof (induct rule: findPath_findPath_loop.pinduct)
  case (1 N source destination pathIndex m)
  then show ?case
    by (auto simp: findPath.psimps Let_def split: if_splits)
next
  case (2 N source destination pathIndex i m)
  show ?case
  proof (cases "i < N")
    case False
    then show ?thesis using 2(1) by (simp add: findPath_loop.psimps)
  next
    case True
    show ?thesis
    proof (cases "visited m i = 0 \<and> cityMatrix m source i \<noteq> 0")
      case False
      have l: "findPath_loop N source destination pathIndex i m =
               findPath_loop N source destination pathIndex (i + 1) m"
        by (simp add: findPath_loop.psimps [OF 2(1)] True False)
      from 2(4) [OF True False] 2(5) l show ?thesis by simp
    next
      case c: True
      obtain r m' where rm: "findPath N i destination pathIndex m = (r, m')"
        by (cases "findPath N i destination pathIndex m") auto
      show ?thesis
      proof (cases "r \<noteq> 0")
        case True
        with \<open>i < N\<close> c rm 2(1,5) show ?thesis by (simp add: findPath_loop.psimps)
      next
        case False
        then have r0: "fst (findPath N i destination pathIndex m) = 0" by (simp add: rm)
        have v: "visited m' = (visited m)(i := 0)"
          using 2(2) [OF \<open>i < N\<close> c r0] by (simp only: rm snd_conv)
        have "(visited m)(i := 0) = visited m" using c by (intro ext) simp
        with v have v': "visited m' = visited m" by simp
        have l: "findPath_loop N source destination pathIndex i m =
                 findPath_loop N source destination pathIndex (i + 1) m'"
          using \<open>i < N\<close> c rm False 2(1) by (simp add: findPath_loop.psimps)
        from 2(3) [OF \<open>i < N\<close> c rm [symmetric]] False 2(5) l v' show ?thesis by simp
      qed
    qed
  qed
qed

termination findPath
proof (relation "measures
     [\<lambda>x. case x of
        Inl (N, s, d, k, m) \<Rightarrow> card (unvisited N ((visited m)(s := 1)))
      | Inr (N, s, d, k, i, m) \<Rightarrow> card (unvisited N (visited m)),
      \<lambda>x. case x of
        Inl (N, s, d, k, m) \<Rightarrow> N + 1
      | Inr (N, s, d, k, i, m) \<Rightarrow> N - i]", goal_cases)
  case 1
  show ?case by simp
next
  case (2 N source destination pathIndex m x xa)
  then show ?case by simp
next
  case (3 N source destination pathIndex i m)
  then show ?case by (simp add: unvisited_mark)
next
  case (4 N source destination pathIndex i m x y)
  from 4(3,4) have "fst (findPath N i destination pathIndex m) = 0" by (metis fst_conv)
  from findPath_restores_dom(1) [OF 4(5) this] 4(3) have "visited y = (visited m)(i := 0)"
    by (metis snd_conv)
  with 4(2) have "visited y = visited m" by auto
  with 4(1) show ?case by simp
next
  case (5 N source destination pathIndex i m)
  then show ?case by simp
qed

declare findPath.simps [simp del] findPath_loop.simps [simp del]

text \<open>
  The memory in which \<^verbatim>\<open>implementR\<close> calls \<^verbatim>\<open>findPath\<close> (lines 282-286):
  \<^verbatim>\<open>visited\<close> comes from \<^verbatim>\<open>calloc\<close> and is all 0, \<^verbatim>\<open>path\<close> comes from
  \<^verbatim>\<open>malloc\<close> and holds anything, and \<^verbatim>\<open>pathIndex\<close> is 0.
\<close>

definition fresh_memory :: "matrix \<Rightarrow> (nat \<Rightarrow> nat) \<Rightarrow> memory" where
  "fresh_memory A p =
     \<lparr>cityMatrix = A, visited = (\<lambda>_. 0), path = p, printed = [], in_bounds = True\<rparr>"

subsection \<open>What a call of \<^verbatim>\<open>findPath\<close> changes\<close>

text \<open>
  A call leaves the matrix alone and returns 0 or 1; a call that returns 0 has printed
  nothing and has left the marks as they were, but for its own vertex, which it cleared.
\<close>

definition call_effect :: "memory \<Rightarrow> nat \<Rightarrow> int \<times> memory \<Rightarrow> bool" where
  "call_effect m source res \<longleftrightarrow>
     cityMatrix (snd res) = cityMatrix m \<and>
     (fst res = 0 \<or> fst res = 1) \<and>
     (fst res = 0 \<longrightarrow> visited (snd res) = (visited m)(source := 0) \<and> printed (snd res) = printed m)"

lemma findPath_effect:
  "call_effect m source (findPath N source destination pathIndex m)"
  "call_effect m source (findPath_loop N source destination pathIndex i m)"
proof (induct N source destination pathIndex m and N source destination pathIndex i m
    rule: findPath_findPath_loop.induct)
  case (1 N source destination pathIndex m)
  show ?case
  proof (cases "source = destination")
    case True
    then show ?thesis by (simp add: findPath.simps call_effect_def Let_def)
  next
    case False
    from 1 [OF refl refl False] False show ?thesis
      by (simp add: findPath.simps [of N source destination pathIndex m] call_effect_def Let_def)
  qed
next
  case (2 N source destination pathIndex i m)
  show ?case
  proof (cases "i < N")
    case False
    then show ?thesis
      by (simp add: findPath_loop.simps [of N source destination pathIndex i m] call_effect_def)
  next
    case True
    show ?thesis
    proof (cases "visited m i = 0 \<and> cityMatrix m source i \<noteq> 0")
      case False
      have l: "findPath_loop N source destination pathIndex i m =
               findPath_loop N source destination pathIndex (i + 1) m"
        by (simp add: findPath_loop.simps [of N source destination pathIndex i m] True False)
      from 2(3) [OF True False] show ?thesis by (simp only: l)
    next
      case c: True
      obtain r m' where rm: "findPath N i destination pathIndex m = (r, m')"
        by (cases "findPath N i destination pathIndex m") auto
      from 2(1) [OF True c] rm have e: "call_effect m i (r, m')" by simp
      show ?thesis
      proof (cases "r \<noteq> 0")
        case True
        with e have "r = 1" by (simp add: call_effect_def)
        with \<open>i < N\<close> c rm e show ?thesis
          by (simp add: findPath_loop.simps [of N source destination pathIndex i m] call_effect_def)
      next
        case False
        have l: "findPath_loop N source destination pathIndex i m =
                 findPath_loop N source destination pathIndex (i + 1) m'"
          using \<open>i < N\<close> c rm False
          by (simp add: findPath_loop.simps [of N source destination pathIndex i m])
        have "(visited m)(i := 0) = visited m" using c by (intro ext) simp
        with e False have m': "visited m' = visited m" "cityMatrix m' = cityMatrix m" "printed m' = printed m"
          by (simp_all add: call_effect_def)
        from 2(2) [OF \<open>i < N\<close> c rm [symmetric] False]
        have "call_effect m' source (findPath_loop N source destination pathIndex (i + 1) m')" .
        then show ?thesis
          unfolding l call_effect_def m' .
      qed
    qed
  qed
qed

subsection \<open>Every array access of a search is inside its array\<close>

text \<open>
  When \<^verbatim>\<open>findPath\<close> is entered at an unmarked vertex, \<^verbatim>\<open>pathIndex\<close> is at most
  the number of marked vertices, so it is less than \<open>N\<close>.
\<close>

definition marked :: "nat \<Rightarrow> (nat \<Rightarrow> int) \<Rightarrow> nat set" where
  "marked N vis = {j. j < N \<and> vis j \<noteq> 0}"

lemma finite_marked: "finite (marked N vis)"
  by (simp add: marked_def)

lemma marked_mark:
  assumes "s < N" "vis s = 0"
  shows "card (marked N (vis(s := 1))) = Suc (card (marked N vis))"
proof -
  have "marked N (vis(s := 1)) = insert s (marked N vis)"
    using assms by (auto simp: marked_def)
  moreover have "s \<notin> marked N vis" using assms by (simp add: marked_def)
  ultimately show ?thesis by (simp add: finite_marked)
qed

lemma marked_less:
  assumes "s < N" "vis s = 0"
  shows "card (marked N vis) < N"
proof -
  have "marked N vis \<subseteq> {..<N} - {s}" using assms by (auto simp: marked_def)
  then have "card (marked N vis) \<le> card ({..<N} - {s})" by (intro card_mono) simp_all
  also have "\<dots> < N" using assms by simp
  finally show ?thesis .
qed

lemma findPath_in_bounds:
  "in_bounds m \<Longrightarrow> source < N \<Longrightarrow> visited m source = 0 \<Longrightarrow>
     pathIndex \<le> card (marked N (visited m)) \<Longrightarrow>
     in_bounds (snd (findPath N source destination pathIndex m))"
  "in_bounds m \<Longrightarrow> source < N \<Longrightarrow> visited m source \<noteq> 0 \<Longrightarrow>
     pathIndex \<le> card (marked N (visited m)) \<Longrightarrow>
     in_bounds (snd (findPath_loop N source destination pathIndex i m))"
proof (induct N source destination pathIndex m and N source destination pathIndex i m
    rule: findPath_findPath_loop.induct)
  case (1 N source destination pathIndex m)
  from marked_less [of source N "visited m", OF 1(3,4)] 1(5) have k: "pathIndex < N" by simp
  show ?case
  proof (cases "source = destination")
    case True
    with 1(2,3) k show ?thesis
      by (simp add: findPath.simps Let_def)
  next
    case False
    let ?m2 = "m\<lparr>in_bounds := in_bounds m \<and> source < N \<and> pathIndex < N,
                 visited := (visited m)(source := 1),
                 path := (path m)(pathIndex := source)\<rparr>"
    have "in_bounds (snd (findPath_loop N source destination (pathIndex + 1) 0 ?m2))"
    proof (rule 1(1) [OF refl refl False])
      show "in_bounds ?m2" using 1(2,3) k by simp
      show "source < N" by (rule 1(3))
      show "visited ?m2 source \<noteq> 0" by simp
      show "pathIndex + 1 \<le> card (marked N (visited ?m2))"
        using marked_mark [of source N "visited m", OF 1(3,4)] 1(5) by simp
    qed
    with False show ?thesis
      by (simp add: findPath.simps [of N source destination pathIndex m] Let_def)
  qed
next
  case (2 N source destination pathIndex i m)
  show ?case
  proof (cases "i < N")
    case False
    with 2(4) show ?thesis
      by (simp add: findPath_loop.simps [of N source destination pathIndex i m])
  next
    case True
    show ?thesis
    proof (cases "visited m i = 0 \<and> cityMatrix m source i \<noteq> 0")
      case False
      have l: "findPath_loop N source destination pathIndex i m =
               findPath_loop N source destination pathIndex (i + 1) m"
        by (simp add: findPath_loop.simps [of N source destination pathIndex i m] True False)
      from 2(3) [OF True False 2(4,5,6,7)] show ?thesis by (simp only: l)
    next
      case c: True
      obtain r m' where rm: "findPath N i destination pathIndex m = (r, m')"
        by (cases "findPath N i destination pathIndex m") auto
      from c have vi: "visited m i = 0" by simp
      from 2(1) [OF True c 2(4) True vi 2(7)] rm have b: "in_bounds m'" by simp
      from findPath_effect(1) [of m i N destination pathIndex] rm
      have e: "call_effect m i (r, m')" by simp
      show ?thesis
      proof (cases "r \<noteq> 0")
        case True
        with \<open>i < N\<close> c rm b show ?thesis
          by (simp add: findPath_loop.simps [of N source destination pathIndex i m])
      next
        case False
        have l: "findPath_loop N source destination pathIndex i m =
                 findPath_loop N source destination pathIndex (i + 1) m'"
          using \<open>i < N\<close> c rm False
          by (simp add: findPath_loop.simps [of N source destination pathIndex i m])
        have "(visited m)(i := 0) = visited m" using c by (intro ext) simp
        with e False have m': "visited m' = visited m" by (simp add: call_effect_def)
        from 2(2) [OF \<open>i < N\<close> c rm [symmetric] False b 2(5)] 2(6,7)
        show ?thesis by (simp add: l m')
      qed
    qed
  qed
qed

subsection \<open>\<^verbatim>\<open>findPath\<close> succeeds exactly when a simple path exists\<close>

text \<open>
  A path from \<open>s\<close> to \<open>d\<close> that enters no vertex of \<open>V\<close> and no vertex twice: what
  the search looks for when the vertices of \<open>V\<close> are marked.
\<close>

inductive simple_path :: "nat \<Rightarrow> matrix \<Rightarrow> nat \<Rightarrow> nat set \<Rightarrow> nat \<Rightarrow> bool"
  for N :: nat and A :: matrix and d :: nat
where
  arrived: "simple_path N A d V d"
| step: "i < N \<Longrightarrow> A s i \<noteq> 0 \<Longrightarrow> i \<notin> V \<Longrightarrow> i \<noteq> s \<Longrightarrow>
         simple_path N A d (insert s V) i \<Longrightarrow> simple_path N A d V s"

lemma simple_path_iff:
  "simple_path N A d V s \<longleftrightarrow>
     s = d \<or> (\<exists>i. i < N \<and> A s i \<noteq> 0 \<and> i \<notin> V \<and> i \<noteq> s \<and> simple_path N A d (insert s V) i)"
  by (subst simple_path.simps) auto

text \<open>The marked vertices of a memory.\<close>

definition marks :: "memory \<Rightarrow> nat set" where
  "marks m = {j. visited m j \<noteq> 0}"

lemma findPath_simple_path:
  "(fst (findPath N source destination pathIndex m) \<noteq> 0) =
     simple_path N (cityMatrix m) destination (marks m) source"
  "visited m source \<noteq> 0 \<Longrightarrow> source \<noteq> destination \<Longrightarrow>
   (fst (findPath_loop N source destination pathIndex i m) \<noteq> 0) =
     (\<exists>j. i \<le> j \<and> j < N \<and> visited m j = 0 \<and> cityMatrix m source j \<noteq> 0 \<and>
          simple_path N (cityMatrix m) destination (marks m) j)"
proof (induct N source destination pathIndex m and N source destination pathIndex i m
    rule: findPath_findPath_loop.induct)
  case (1 N source destination pathIndex m)
  show ?case
  proof (cases "source = destination")
    case True
    then show ?thesis
      by (simp add: findPath.simps Let_def simple_path.arrived)
  next
    case False
    let ?m2 = "m\<lparr>in_bounds := in_bounds m \<and> source < N \<and> pathIndex < N,
                 visited := (visited m)(source := 1),
                 path := (path m)(pathIndex := source)\<rparr>"
    have mk: "marks ?m2 = insert source (marks m)" by (auto simp: marks_def)
    have "(fst (findPath_loop N source destination (pathIndex + 1) 0 ?m2) \<noteq> 0) =
          (\<exists>j. 0 \<le> j \<and> j < N \<and> visited ?m2 j = 0 \<and> cityMatrix ?m2 source j \<noteq> 0 \<and>
               simple_path N (cityMatrix ?m2) destination (marks ?m2) j)"
      by (rule 1 [OF refl refl False _ False]) simp
    also have "\<dots> = (\<exists>j. j < N \<and> cityMatrix m source j \<noteq> 0 \<and> j \<notin> marks m \<and> j \<noteq> source \<and>
               simple_path N (cityMatrix m) destination (insert source (marks m)) j)"
      unfolding mk by (auto simp: marks_def)
    also have "\<dots> = simple_path N (cityMatrix m) destination (marks m) source"
      using False by (subst (2) simple_path_iff) simp
    finally show ?thesis using False
      by (simp add: findPath.simps [of N source destination pathIndex m] Let_def)
  qed
next
  case (2 N source destination pathIndex i m)
  let ?R = "\<lambda>i m. \<exists>j. i \<le> j \<and> j < N \<and> visited m j = 0 \<and> cityMatrix m source j \<noteq> 0 \<and>
          simple_path N (cityMatrix m) destination (marks m) j"
  show ?case
  proof (cases "i < N")
    case False
    then show ?thesis
      by (simp add: findPath_loop.simps [of N source destination pathIndex i m])
  next
    case True
    have split: "?R i m \<longleftrightarrow>
        (visited m i = 0 \<and> cityMatrix m source i \<noteq> 0 \<and>
           simple_path N (cityMatrix m) destination (marks m) i) \<or> ?R (i + 1) m"
      (is "_ \<longleftrightarrow> ?here \<or> _")
    proof
      assume "?R i m"
      then obtain j where j: "i \<le> j" "j < N" "visited m j = 0" "cityMatrix m source j \<noteq> 0"
          "simple_path N (cityMatrix m) destination (marks m) j" by blast
      show "?here \<or> ?R (i + 1) m"
      proof (cases "j = i")
        case True
        with j show ?thesis by simp
      next
        case False
        with j(1) have "i + 1 \<le> j" by simp
        with j show ?thesis by blast
      qed
    next
      assume "?here \<or> ?R (i + 1) m"
      then show "?R i m"
      proof
        assume ?here
        with True show ?thesis by blast
      next
        assume "?R (i + 1) m"
        then obtain j where "i + 1 \<le> j" "j < N" "visited m j = 0" "cityMatrix m source j \<noteq> 0"
          "simple_path N (cityMatrix m) destination (marks m) j" by blast
        moreover then have "i \<le> j" by simp
        ultimately show ?thesis by blast
      qed
    qed
    show ?thesis
    proof (cases "visited m i = 0 \<and> cityMatrix m source i \<noteq> 0")
      case False
      have l: "findPath_loop N source destination pathIndex i m =
               findPath_loop N source destination pathIndex (i + 1) m"
        by (simp add: findPath_loop.simps [of N source destination pathIndex i m] True False)
      from 2(3) [OF True False 2(4,5)] False show ?thesis
        unfolding l split by blast
    next
      case c: True
      obtain r m' where rm: "findPath N i destination pathIndex m = (r, m')"
        by (cases "findPath N i destination pathIndex m") auto
      from 2(1) [OF True c] rm
      have ri: "(r \<noteq> 0) = simple_path N (cityMatrix m) destination (marks m) i" by simp
      from findPath_effect(1) [of m i N destination pathIndex] rm
      have e: "call_effect m i (r, m')" by simp
      show ?thesis
      proof (cases "r \<noteq> 0")
        case True
        have "fst (findPath_loop N source destination pathIndex i m) \<noteq> 0"
          using \<open>i < N\<close> c rm True
          by (simp add: findPath_loop.simps [of N source destination pathIndex i m])
        moreover have "?R i m" unfolding split using c ri True by simp
        ultimately show ?thesis by simp
      next
        case False
        have l: "findPath_loop N source destination pathIndex i m =
                 findPath_loop N source destination pathIndex (i + 1) m'"
          using \<open>i < N\<close> c rm False
          by (simp add: findPath_loop.simps [of N source destination pathIndex i m])
        have "(visited m)(i := 0) = visited m" using c by (intro ext) simp
        with e False have m': "visited m' = visited m" "cityMatrix m' = cityMatrix m"
          by (simp_all add: call_effect_def)
        then have mk: "marks m' = marks m" by (simp add: marks_def)
        from 2(2) [OF \<open>i < N\<close> c rm [symmetric] False] 2(4,5)
        have "(fst (findPath_loop N source destination pathIndex (i + 1) m') \<noteq> 0) = ?R (i + 1) m"
          by (simp add: m' mk)
        with False ri show ?thesis unfolding l split by simp
      qed
    qed
  qed
qed

subsection \<open>Simple paths and walks\<close>

text \<open>The edges into vertices outside \<open>V\<close>.\<close>

definition avoiding :: "nat \<Rightarrow> matrix \<Rightarrow> nat set \<Rightarrow> (nat \<times> nat) set" where
  "avoiding N A V = {(a, b). b < N \<and> A a b \<noteq> 0 \<and> b \<notin> V}"

lemma avoiding_insert: "avoiding N A (insert s V) = {(a, b). (a, b) \<in> avoiding N A V \<and> b \<noteq> s}"
  by (auto simp: avoiding_def)

text \<open>
  A walk of \<open>n\<close> steps to \<open>d\<close> either never enters \<open>s\<close>, or \<open>s\<close> has a shorter walk
  to \<open>d\<close>.
\<close>

lemma last_visit:
  "(y, d) \<in> R ^^ n \<Longrightarrow>
   (y, d) \<in> {(a, b). (a, b) \<in> R \<and> b \<noteq> s} ^^ n \<or> (\<exists>k<n. (s, d) \<in> R ^^ k)"
proof (induction n arbitrary: d)
  case 0
  then show ?case by simp
next
  case (Suc n)
  from Suc.prems obtain z where z: "(y, z) \<in> R ^^ n" "(z, d) \<in> R" by auto
  show ?case
  proof (cases "d = s")
    case True
    have "(s, d) \<in> R ^^ 0" using True by simp
    then show ?thesis by blast
  next
    case False
    from Suc.IH [OF z(1)] show ?thesis
    proof
      assume "(y, z) \<in> {(a, b). (a, b) \<in> R \<and> b \<noteq> s} ^^ n"
      moreover have "(z, d) \<in> {(a, b). (a, b) \<in> R \<and> b \<noteq> s}" using z(2) False by simp
      ultimately have "(y, d) \<in> {(a, b). (a, b) \<in> R \<and> b \<noteq> s} ^^ Suc n" by auto
      then show ?thesis ..
    next
      assume "\<exists>k<n. (s, z) \<in> R ^^ k"
      then obtain k where k: "k < n" "(s, z) \<in> R ^^ k" by blast
      with z(2) have "(s, d) \<in> R ^^ Suc k" by auto
      with k(1) show ?thesis by (intro disjI2 exI [of _ "Suc k"]) simp
    qed
  qed
qed

lemma relpow_subset:
  fixes R S :: "('a \<times> 'a) set"
  shows "R \<subseteq> S \<Longrightarrow> (a, b) \<in> R ^^ n \<Longrightarrow> (a, b) \<in> S ^^ n"
  by (induction n arbitrary: b) auto

lemma first_step:
  "s \<noteq> d \<Longrightarrow> (s, d) \<in> R ^^ n \<Longrightarrow>
   \<exists>y m. m < n \<and> (s, y) \<in> R \<and> y \<noteq> s \<and> (y, d) \<in> {(a, b). (a, b) \<in> R \<and> b \<noteq> s} ^^ m"
proof (induction n rule: less_induct)
  case (less n)
  let ?Rs = "{(a, b). (a, b) \<in> R \<and> b \<noteq> s}"
  from less.prems obtain n' where n: "n = Suc n'" by (cases n) auto
  with less.prems have "(s, d) \<in> R ^^ Suc n'" by simp
  then obtain y where y: "(s, y) \<in> R" "(y, d) \<in> R ^^ n'"
    by (blast dest: relpow_Suc_D2)
  have shorter: "\<exists>y m. m < n \<and> (s, y) \<in> R \<and> y \<noteq> s \<and> (y, d) \<in> ?Rs ^^ m"
    if "k < n" "(s, d) \<in> R ^^ k" for k
  proof -
    from less.IH [OF that(1) less.prems(1) that(2)]
    obtain y m where "m < k" "(s, y) \<in> R" "y \<noteq> s" "(y, d) \<in> ?Rs ^^ m" by blast
    with that(1) show ?thesis by (intro exI [of _ y] exI [of _ m]) simp
  qed
  from last_visit [OF y(2), of s] show ?case
  proof
    assume a: "(y, d) \<in> ?Rs ^^ n'"
    show ?thesis
    proof (cases "y = s")
      case False
      with y(1) a n show ?thesis by (intro exI [of _ y] exI [of _ n']) simp
    next
      case True
      have "(s, d) \<in> R ^^ n'"
        by (rule relpow_subset [of ?Rs]) (use a True in auto)
      then show ?thesis by (rule shorter [rotated]) (simp add: n)
    qed
  next
    assume "\<exists>k<n'. (s, d) \<in> R ^^ k"
    then obtain k where "k < n'" "(s, d) \<in> R ^^ k" by blast
    then show ?thesis by (intro shorter [of k]) (simp_all add: n)
  qed
qed

lemma walk_simple_path:
  "(s, d) \<in> avoiding N A V ^^ n \<Longrightarrow> simple_path N A d V s"
proof (induction n arbitrary: s V rule: less_induct)
  case (less n)
  show ?case
  proof (cases "s = d")
    case True
    then show ?thesis by (simp add: simple_path.arrived)
  next
    case False
    from first_step [OF False less.prems]
    obtain y m where ym: "m < n" "(s, y) \<in> avoiding N A V" "y \<noteq> s"
        "(y, d) \<in> avoiding N A (insert s V) ^^ m"
      unfolding avoiding_insert by blast
    from less.IH [OF ym(1,4)] have sp: "simple_path N A d (insert s V) y" .
    from ym(2) have "y < N" "A s y \<noteq> 0" "y \<notin> V" by (auto simp: avoiding_def)
    then show ?thesis using ym(3) sp by (rule simple_path.step)
  qed
qed

lemma simple_path_walk:
  "simple_path N A d V s \<Longrightarrow> s < N \<Longrightarrow> s = d \<or> walk N A s d"
proof (induction rule: simple_path.induct)
  case (arrived V)
  show ?case by simp
next
  case (step i s V)
  have e: "(s, i) \<in> edges N A" using step.hyps step.prems by (simp add: edges_def)
  from step.IH [OF step.hyps(1)] have "walk N A s d"
  proof
    assume "i = d"
    with e show ?thesis by (auto simp: walk_def)
  next
    assume "walk N A i d"
    with e show ?thesis unfolding walk_def by (rule trancl_into_trancl2)
  qed
  then show ?case ..
qed

lemma simple_path_iff_walk:
  assumes "s < N"
  shows "simple_path N A d {} s \<longleftrightarrow> s = d \<or> walk N A s d"
proof
  assume "simple_path N A d {} s"
  then show "s = d \<or> walk N A s d" using assms by (rule simple_path_walk)
next
  assume "s = d \<or> walk N A s d"
  then show "simple_path N A d {} s"
  proof
    assume "s = d"
    then show ?thesis by (simp add: simple_path.arrived)
  next
    assume "walk N A s d"
    then have "(s, d) \<in> (avoiding N A {})\<^sup>+"
      unfolding walk_def by (rule trancl_mono) (auto simp: edges_def avoiding_def)
    then obtain n where "(s, d) \<in> avoiding N A {} ^^ n" by (auto simp: trancl_power)
    then show ?thesis by (rule walk_simple_path)
  qed
qed

lemma findPath_fresh:
  assumes "s < N"
  shows "(fst (findPath N s d 0 (fresh_memory A p)) \<noteq> 0) \<longleftrightarrow> s = d \<or> walk N A s d"
proof -
  have "marks (fresh_memory A p) = {}" by (simp add: marks_def fresh_memory_def)
  with findPath_simple_path(1) [of N s d 0 "fresh_memory A p"] simple_path_iff_walk [OF assms, of A d]
  show ?thesis by (simp add: fresh_memory_def)
qed

section \<open>The claims\<close>

subsection \<open>The closure engine\<close>

text \<open>
  Claim C10.  The closure computation prints each pair \<open>(u, w)\<close> at most once over the
  whole run: no pair occurs twice in the printed sequence.
\<close>

theorem closure_emits_each_pair_once: "distinct (calculateTransitiveClosure N A)"
  by (rule distinct_calc)

theorem closure_emits_each_pair_once_witness:
  "calculateTransitiveClosure 3 (matrix_of [[1, 1, 0], [0, 0, 1], [1, 0, 0]])
     = [(0, 0), (0, 1), (1, 2), (2, 0), (0, 2), (1, 0), (2, 1)]
   \<and> distinct (calculateTransitiveClosure 3 (matrix_of [[1, 1, 0], [0, 0, 1], [1, 0, 0]]))"
proof
  show "calculateTransitiveClosure 3 (matrix_of [[1, 1, 0], [0, 0, 1], [1, 0, 0]])
     = [(0, 0), (0, 1), (1, 2), (2, 0), (0, 2), (1, 0), (2, 1)]"
    by code_simp
  show "distinct (calculateTransitiveClosure 3 (matrix_of [[1, 1, 0], [0, 0, 1], [1, 0, 0]]))"
    by (rule closure_emits_each_pair_once)
qed

text \<open>
  Claim C4.  The closure matrix only grows: a cell either keeps its value or goes from 0
  to 1, in every single step of the innermost loop, hence in every pass and over the
  whole loop.  A cell that is set is never cleared again.
\<close>

theorem closure_only_false_to_true:
  "(transitiveClosure (closure_step A u v w st) i j = transitiveClosure st i j \<or>
      (transitiveClosure st i j = 0 \<and> transitiveClosure (closure_step A u v w st) i j = 1)) \<and>
   (transitiveClosure (closure_pass N A st) i j = transitiveClosure st i j \<or>
      (transitiveClosure st i j = 0 \<and> transitiveClosure (closure_pass N A st) i j = 1)) \<and>
   (transitiveClosure (closure_while N A st) i j = transitiveClosure st i j \<or>
      (transitiveClosure st i j = 0 \<and> transitiveClosure (closure_while N A st) i j = 1))"
  using step_cell pass_cell while_cell by blast

theorem closure_only_false_to_true_witness:
  "transitiveClosure (closure_init 3 (matrix_of [[0, 1, 0], [0, 0, 1], [0, 0, 0]])) 0 2 = 0 \<and>
   transitiveClosure (closure_while 3 (matrix_of [[0, 1, 0], [0, 0, 1], [0, 0, 0]])
      (closure_init 3 (matrix_of [[0, 1, 0], [0, 0, 1], [0, 0, 0]]))) 0 2 = 1 \<and>
   transitiveClosure (closure_init 3 (matrix_of [[0, 1, 0], [0, 0, 1], [0, 0, 0]])) 0 1 = 1 \<and>
   transitiveClosure (closure_while 3 (matrix_of [[0, 1, 0], [0, 0, 1], [0, 0, 0]])
      (closure_init 3 (matrix_of [[0, 1, 0], [0, 0, 1], [0, 0, 0]]))) 0 1 = 1"
proof -
  let ?A = "matrix_of [[0, 1, 0], [0, 0, 1], [0, 0, 0]]"
  have a: "transitiveClosure (closure_init 3 ?A) 0 2 = 0" by code_simp
  have b: "transitiveClosure (closure_while 3 ?A (closure_init 3 ?A)) 0 2 \<noteq> 0" by code_simp
  have c: "transitiveClosure (closure_init 3 ?A) 0 1 = 1" by code_simp
  from closure_only_false_to_true [of ?A 0 0 0 "closure_init 3 ?A" 0 2 3] a b
  have b1: "transitiveClosure (closure_while 3 ?A (closure_init 3 ?A)) 0 2 = 1" by simp
  from closure_only_false_to_true [of ?A 0 0 0 "closure_init 3 ?A" 0 1 3] c
  have c1: "transitiveClosure (closure_while 3 ?A (closure_init 3 ?A)) 0 1 = 1" by simp
  from a b1 c c1 show ?thesis by simp
qed

text \<open>
  Claim C1, as amended.  For an adjacency matrix of 0s and 1s, a pair \<open>(u, w)\<close> of
  different vertices is printed exactly when a nonempty directed walk leads from \<open>u\<close>
  to \<open>w\<close>; a pair \<open>(u, u)\<close> is printed exactly when the matrix has the self-loop
  \<open>A u u = 1\<close>, whatever cycles lead from \<open>u\<close> back to \<open>u\<close>: the
  guard \<^verbatim>\<open>u != w\<close> of the loop keeps the diagonal as it was.
\<close>

theorem closure_nonempty_walks:
  assumes "adjacency01 N A"
  shows "(u, w) \<in> set (calculateTransitiveClosure N A) \<longleftrightarrow>
           (if u = w then u < N \<and> A u u = 1 else walk N A u w)"
proof (cases "u = w")
  case True
  then show ?thesis by (auto simp: calc_set_general)
next
  case False
  have in_range: "u < N \<and> w < N" if "walk N A u w"
    using that unfolding walk_def
    by (metis (no_types, lifting) edges_def mem_Collect_eq case_prodD tranclD tranclD2)
  have "A u w = 1 \<Longrightarrow> u < N \<Longrightarrow> w < N \<Longrightarrow> walk N A u w"
    by (rule edge_walk) auto
  with False in_range adjacency01_cell [OF assms, of u w] show ?thesis
    by (auto simp: calc_set_general)
qed

text \<open>
  The claim as stated fails on the cycle \<open>0 \<rightarrow> 1 \<rightarrow> 0\<close>: the walk from 0 to 0 exists
  and \<open>(0, 0)\<close> is not printed.
\<close>

theorem closure_self_walk_counterexample:
  "\<not> ((0, 0) \<in> set (calculateTransitiveClosure 2 (matrix_of [[0, 1], [1, 0]]))
        \<longleftrightarrow> walk 2 (matrix_of [[0, 1], [1, 0]]) 0 0)"
proof -
  have "calculateTransitiveClosure 2 (matrix_of [[0, 1], [1, 0]]) = [(0, 1), (1, 0)]"
    by code_simp
  then have "(0, 0) \<notin> set (calculateTransitiveClosure 2 (matrix_of [[0, 1], [1, 0]]))"
    by simp
  moreover have "walk 2 (matrix_of [[0, 1], [1, 0]]) 0 0"
  proof -
    have "(0, 1) \<in> edges 2 (matrix_of [[0, 1], [1, 0]])" by (simp add: edges_def matrix_of_def)
    moreover have "(1, 0) \<in> edges 2 (matrix_of [[0, 1], [1, 0]])" by (simp add: edges_def matrix_of_def)
    ultimately show ?thesis unfolding walk_def by (rule trancl_into_trancl [OF r_into_trancl])
  qed
  ultimately show ?thesis by simp
qed

theorem closure_nonempty_walks_witness:
  "adjacency01 3 (matrix_of [[0, 1, 0], [0, 0, 1], [0, 0, 0]]) \<and>
   (0, 2) \<in> set (calculateTransitiveClosure 3 (matrix_of [[0, 1, 0], [0, 0, 1], [0, 0, 0]])) \<and>
   walk 3 (matrix_of [[0, 1, 0], [0, 0, 1], [0, 0, 0]]) 0 2 \<and>
   (1, 1) \<notin> set (calculateTransitiveClosure 3 (matrix_of [[0, 1, 0], [0, 0, 1], [0, 0, 0]]))"
proof -
  let ?A = "matrix_of [[0, 1, 0], [0, 0, 1], [0, 0, 0]]"
  have a: "adjacency01 3 ?A" by code_simp
  have c: "calculateTransitiveClosure 3 ?A = [(0, 1), (1, 2), (0, 2)]" by code_simp
  have m: "(0, 2) \<in> set (calculateTransitiveClosure 3 ?A)" unfolding c by simp
  have n: "(1, 1) \<notin> set (calculateTransitiveClosure 3 ?A)" unfolding c by simp
  from closure_nonempty_walks [OF a, of 0 2] m have "walk 3 ?A 0 2" by simp
  with a m n show ?thesis by simp
qed

text \<open>
  Claim C3.  The printed sequence starts with the output of the initial pass; every pair
  printed after it, by the fixpoint passes, has \<open>u \<noteq> w\<close>; and if the adjacency
  matrix has \<open>A u u = 1\<close>, the pair \<open>(u, u)\<close> is printed by the initial pass
  and occurs exactly once in the whole sequence.
\<close>

theorem closure_diagonal_only_initially:
  "(let init = emit_initial N (copyMatrix N A createMatrix) [];
        out = calculateTransitiveClosure N A
    in take (length init) out = init \<and>
       (\<forall>p \<in> set (drop (length init) out). fst p \<noteq> snd p) \<and>
       (u < N \<and> A u u = 1 \<longrightarrow> (u, u) \<in> set init \<and> count_list out (u, u) = 1))"
proof -
  let ?init = "emit_initial N (copyMatrix N A createMatrix) []"
  let ?out = "calculateTransitiveClosure N A"
  have t: "take (length ?init) ?out = ?init" by (rule calc_split(1))
  have "(u, u) \<in> set ?out" if "(u, u) \<in> set ?init"
  proof -
    from that have "(u, u) \<in> set (take (length ?init) ?out)" by (simp only: t)
    then show ?thesis by (rule in_set_takeD)
  qed
  then have "count_list ?out (u, u) = 1" if "(u, u) \<in> set ?init"
    using that by (simp add: distinct_count_one [OF distinct_calc])
  with t calc_split(2) [of N A] self_loop_initial [of u N A]
  show ?thesis by (simp add: Let_def)
qed

theorem closure_diagonal_only_initially_witness:
  "emit_initial 3 (copyMatrix 3 (matrix_of [[1, 1, 0], [0, 0, 1], [1, 0, 0]]) createMatrix) []
      = [(0, 0), (0, 1), (1, 2), (2, 0)] \<and>
   drop 4 (calculateTransitiveClosure 3 (matrix_of [[1, 1, 0], [0, 0, 1], [1, 0, 0]]))
      = [(0, 2), (1, 0), (2, 1)] \<and>
   matrix_of [[1, 1, 0], [0, 0, 1], [1, 0, 0]] 0 0 = 1 \<and>
   count_list (calculateTransitiveClosure 3 (matrix_of [[1, 1, 0], [0, 0, 1], [1, 0, 0]])) (0, 0) = 1"
proof -
  let ?A = "matrix_of [[1, 1, 0], [0, 0, 1], [1, 0, 0]]"
  have i: "emit_initial 3 (copyMatrix 3 ?A createMatrix) [] = [(0, 0), (0, 1), (1, 2), (2, 0)]"
    by code_simp
  have d: "drop 4 (calculateTransitiveClosure 3 ?A) = [(0, 2), (1, 0), (2, 1)]"
    by code_simp
  have a: "?A 0 0 = 1" by (simp add: matrix_of_def)
  from closure_diagonal_only_initially [of 3 ?A 0] a
  have "count_list (calculateTransitiveClosure 3 ?A) (0, 0) = 1" by (simp add: Let_def)
  with i d a show ?thesis by simp
qed




text \<open>
  Claim C6.  The loop terminates (\<open>closure_while\<close> is a total function), and within
  \<open>N\<close> passes: after \<open>N\<close> runs of the body from the state in which the loop is
  entered, one more run sets no flag, prints nothing and changes no cell; the state the
  loop returns is that one; and the body runs at most \<open>N\<close> times (once when
  \<open>N = 0\<close>, since the flag is 1 on entry).
\<close>

theorem closure_terminates_within_N_passes:
  "(let st0 = closure_init N A;
        stN = (closure_pass N A ^^ N) st0
    in repeat (closure_pass N A stN) = 0 \<and>
       emitted (closure_pass N A stN) = emitted stN \<and>
       transitiveClosure (closure_pass N A stN) = transitiveClosure stN \<and>
       closure_while N A st0 = closure_pass N A stN \<and>
       closure_passes N A st0 \<le> max 1 N)"
proof -
  let ?st0 = "closure_init N A"
  let ?stN = "(closure_pass N A ^^ N) ?st0"
  have r: "repeat ?st0 \<noteq> 0" by (simp add: init_repeat)
  have d: "discovered N A (transitiveClosure ?stN) = []"
    using fixpoint_at_N [of N A ?st0] by (simp add: tc_after_def)
  have w: "closure_while N A ?st0 = closure_pass N A ?stN"
    using while_funpow [OF r fixpoint_at_N [of N A ?st0]] by simp
  have p: "closure_passes N A ?st0 \<le> max 1 N"
  proof (cases N)
    case 0
    have "closure_passes N A ?st0 \<le> Suc 0"
      by (rule passes_bound [OF r]) (simp add: 0 discovered_none)
    then show ?thesis by simp
  next
    case (Suc m)
    have "closure_passes N A ?st0 \<le> Suc (N - 1)"
      by (rule passes_bound [OF r fixpoint_before_N]) (simp add: Suc)
    then show ?thesis by (simp add: Suc)
  qed
  show ?thesis
    using p by (simp add: Let_def pass_repeat pass_emitted pass_transitiveClosure d overlay_nil w)
qed

theorem closure_terminates_within_N_passes_witness:
  "closure_passes 3 (matrix_of [[0, 1, 0], [0, 0, 1], [0, 0, 0]])
      (closure_init 3 (matrix_of [[0, 1, 0], [0, 0, 1], [0, 0, 0]])) = 2 \<and>
   emitted (closure_while 3 (matrix_of [[0, 1, 0], [0, 0, 1], [0, 0, 0]])
      (closure_init 3 (matrix_of [[0, 1, 0], [0, 0, 1], [0, 0, 0]]))) = [(0, 1), (1, 2), (0, 2)] \<and>
   emitted ((closure_pass 3 (matrix_of [[0, 1, 0], [0, 0, 1], [0, 0, 0]]) ^^ 3)
      (closure_init 3 (matrix_of [[0, 1, 0], [0, 0, 1], [0, 0, 0]]))) = [(0, 1), (1, 2), (0, 2)]"
proof -
  let ?A = "matrix_of [[0, 1, 0], [0, 0, 1], [0, 0, 0]]"
  have c: "closure_passes 3 ?A (closure_init 3 ?A) = 2" by code_simp
  have e: "emitted (closure_while 3 ?A (closure_init 3 ?A)) = [(0, 1), (1, 2), (0, 2)]"
    by code_simp
  from closure_terminates_within_N_passes [of 3 ?A] e
  have "emitted ((closure_pass 3 ?A ^^ 3) (closure_init 3 ?A)) = [(0, 1), (1, 2), (0, 2)]"
    by (simp add: Let_def)
  with c e show ?thesis by simp
qed

subsection \<open>The path finder\<close>

text \<open>
  Claim C5.  Whatever the matrix holds, the search from \<open>s\<close> to \<open>s\<close> returns 1 at
  once, without entering the loop: it marks \<open>s\<close>, stores it at \<open>path[0]\<close> and prints
  the one-vertex path \<open>[s]\<close>.
\<close>

theorem findPath_same_vertex:
  "findPath N s s 0 m =
     (1, m\<lparr>in_bounds := in_bounds m \<and> s < N \<and> 0 < N,
            visited := (visited m)(s := 1),
            path := (path m)(0 := s),
            printed := printed m @ [[s]]\<rparr>)"
  by (simp add: findPath.simps Let_def)

theorem findPath_same_vertex_witness:
  "fst (findPath 3 1 1 0 (fresh_memory (matrix_of [[0, 0, 0], [0, 0, 0], [0, 0, 0]]) (\<lambda>_. 0))) = 1 \<and>
   printed (snd (findPath 3 1 1 0 (fresh_memory (matrix_of [[0, 0, 0], [0, 0, 0], [0, 0, 0]]) (\<lambda>_. 0))))
     = [[1]]"
  by (simp add: findPath_same_vertex fresh_memory_def)

text \<open>
  Claim C8.  Every call of \<^verbatim>\<open>findPath\<close> returns with the adjacency matrix as it was
  at the call, whether it returns 0 or 1; and in the search that \<^verbatim>\<open>implementR\<close>
  starts from an in-range source, every array access is inside its array, so no write
  to \<^verbatim>\<open>visited\<close> or \<^verbatim>\<open>path\<close> can land in the matrix.
\<close>

theorem findPath_leaves_matrix:
  "cityMatrix (snd (findPath N source destination pathIndex m)) = cityMatrix m \<and>
   (source < N \<longrightarrow> in_bounds (snd (findPath N source destination 0 (fresh_memory A p))))"
proof
  show "cityMatrix (snd (findPath N source destination pathIndex m)) = cityMatrix m"
    using findPath_effect(1) [of m source N destination pathIndex] by (simp add: call_effect_def)
  show "source < N \<longrightarrow> in_bounds (snd (findPath N source destination 0 (fresh_memory A p)))"
  proof
    assume "source < N"
    then show "in_bounds (snd (findPath N source destination 0 (fresh_memory A p)))"
      by (intro findPath_in_bounds(1)) (simp_all add: fresh_memory_def)
  qed
qed

theorem findPath_leaves_matrix_witness:
  "(0::nat) < 3 \<and>
   in_bounds (snd (findPath 3 0 2 0 (fresh_memory (matrix_of [[0, 1, 0], [0, 0, 1], [0, 0, 0]]) (\<lambda>_. 0)))) \<and>
   cityMatrix (snd (findPath 3 0 2 0 (fresh_memory (matrix_of [[0, 1, 0], [0, 0, 1], [0, 0, 0]]) (\<lambda>_. 0))))
     = matrix_of [[0, 1, 0], [0, 0, 1], [0, 0, 0]] \<and>
   printed (snd (findPath 3 0 2 0 (fresh_memory (matrix_of [[0, 1, 0], [0, 0, 1], [0, 0, 0]]) (\<lambda>_. 0))))
     = [[0, 1, 2]]"
proof -
  let ?A = "matrix_of [[0, 1, 0], [0, 0, 1], [0, 0, 0]]"
  have p: "printed (snd (findPath 3 0 2 0 (fresh_memory ?A (\<lambda>_. 0)))) = [[0, 1, 2]]"
    by code_simp
  from findPath_leaves_matrix [of 3 0 2 0 "fresh_memory ?A (\<lambda>_. 0)" ?A "\<lambda>_. 0"] p
  show ?thesis by (simp add: fresh_memory_def)
qed

text \<open>
  Claim C9.  A call of \<^verbatim>\<open>findPath\<close> that returns 0 returns with \<^verbatim>\<open>visited\<close>
  exactly as it was at entry: the mark on \<open>source\<close> and every mark made below it
  have been cleared.  The calls are those the program makes, and each of them is entered
  with \<^verbatim>\<open>visited[source] == 0\<close>: the first on an array from \<^verbatim>\<open>calloc\<close>
  (line 282, \<open>fresh_memory\<close>), the recursive ones behind the test
  \<^verbatim>\<open>!visited[i]\<close> (line 224, the guard of \<open>findPath_loop\<close>).  That entry
  condition is the hypothesis.
\<close>

theorem findPath_failure_restores_visited:
  assumes "visited m source = 0"
    and "fst (findPath N source destination pathIndex m) = 0"
  shows "visited (snd (findPath N source destination pathIndex m)) = visited m"
proof -
  from findPath_effect(1) [of m source N destination pathIndex] assms(2)
  have "visited (snd (findPath N source destination pathIndex m)) = (visited m)(source := 0)"
    by (simp add: call_effect_def)
  moreover have "(visited m)(source := 0) = visited m" using assms(1) by (intro ext) simp
  ultimately show ?thesis by simp
qed

theorem findPath_failure_restores_visited_witness:
  "visited (fresh_memory (matrix_of [[0, 1, 0], [0, 0, 1], [0, 0, 0]]) (\<lambda>_. 0)) 2 = 0 \<and>
   fst (findPath 3 2 0 0 (fresh_memory (matrix_of [[0, 1, 0], [0, 0, 1], [0, 0, 0]]) (\<lambda>_. 0))) = 0 \<and>
   visited (snd (findPath 3 2 0 0 (fresh_memory (matrix_of [[0, 1, 0], [0, 0, 1], [0, 0, 0]]) (\<lambda>_. 0))))
     = visited (fresh_memory (matrix_of [[0, 1, 0], [0, 0, 1], [0, 0, 0]]) (\<lambda>_. 0))"
proof -
  let ?m = "fresh_memory (matrix_of [[0, 1, 0], [0, 0, 1], [0, 0, 0]]) (\<lambda>_. 0)"
  have v: "visited ?m 2 = 0" by (simp add: fresh_memory_def)
  have f: "fst (findPath 3 2 0 0 ?m) = 0" by code_simp
  from findPath_failure_restores_visited [OF v f] v f show ?thesis by simp
qed

text \<open>
  Claim C2, as amended.  For an adjacency matrix of 0s and 1s and an in-range source, the
  search that \<^verbatim>\<open>implementR\<close> starts returns 0 exactly when the two vertices differ
  and the pair is not printed by the closure computation.  For \<open>s = d\<close> the search
  always returns 1, whether or not \<open>(s, s)\<close> is printed.
\<close>

theorem findPath_agrees_with_closure:
  assumes "adjacency01 N A" and "s < N"
  shows "(fst (findPath N s d 0 (fresh_memory A p)) = 0) =
         (s \<noteq> d \<and> (s, d) \<notin> set (calculateTransitiveClosure N A))"
proof (cases "s = d")
  case True
  with findPath_fresh [OF assms(2), of d A p] show ?thesis by simp
next
  case False
  have in_range: "d < N" if "walk N A s d"
    using that unfolding walk_def
    by (metis (no_types, lifting) edges_def mem_Collect_eq case_prodD tranclD2)
  have "(s, d) \<in> set (calculateTransitiveClosure N A) \<longleftrightarrow> walk N A s d"
  proof
    assume "(s, d) \<in> set (calculateTransitiveClosure N A)"
    then show "walk N A s d"
      using edge_walk [of s N d A] by (auto simp: calc_set_general)
  next
    assume w: "walk N A s d"
    with in_range adjacency01_cell [OF assms(1,2), of d] False
    show "(s, d) \<in> set (calculateTransitiveClosure N A)"
      using assms(2) by (auto simp: calc_set_general)
  qed
  with findPath_fresh [OF assms(2), of d A p] False show ?thesis by auto
qed

theorem findPath_agrees_with_closure_witness:
  "adjacency01 3 (matrix_of [[0, 1, 0], [0, 0, 1], [0, 0, 0]]) \<and> (2::nat) < 3 \<and>
   fst (findPath 3 2 0 0 (fresh_memory (matrix_of [[0, 1, 0], [0, 0, 1], [0, 0, 0]]) (\<lambda>_. 0))) = 0 \<and>
   (2, 0) \<notin> set (calculateTransitiveClosure 3 (matrix_of [[0, 1, 0], [0, 0, 1], [0, 0, 0]]))"
proof -
  let ?A = "matrix_of [[0, 1, 0], [0, 0, 1], [0, 0, 0]]"
  have a: "adjacency01 3 ?A" by code_simp
  have f: "fst (findPath 3 2 0 0 (fresh_memory ?A (\<lambda>_. 0))) = 0" by code_simp
  from findPath_agrees_with_closure [OF a, of 2 0 "\<lambda>_. 0"] f
  have "(2, 0) \<notin> set (calculateTransitiveClosure 3 ?A)" by simp
  with a f show ?thesis by simp
qed

text \<open>
  The claim as stated fails at \<open>s = d\<close>: on the one-vertex graph without a self-loop
  the search from 0 to 0 returns 1, and the closure computation prints nothing.
\<close>

theorem findPath_diagonal_counterexample:
  "\<not> (fst (findPath 1 0 0 0 (fresh_memory (matrix_of [[0]]) (\<lambda>_. 0))) = 0
        \<longleftrightarrow> (0, 0) \<notin> set (calculateTransitiveClosure 1 (matrix_of [[0]])))"
proof -
  have "fst (findPath 1 0 0 0 (fresh_memory (matrix_of [[0]]) (\<lambda>_. 0))) = 1" by code_simp
  moreover have "calculateTransitiveClosure 1 (matrix_of [[0]]) = []" by code_simp
  ultimately show ?thesis by simp
qed

end
